theory Spec2Isabelle
  imports Main "HOL-Library.Sublist"
begin

section \<open>Strings and regular-expression primitives\<close>

text \<open>
  A JavaScript string is a sequence of code units; here a \<^typ>\<open>char\<close> is one code unit
  in the range 0..255. In that range the characters that \<open>\s\<close> and \<open>trim()\<close> treat as
  white space are tab, line feed, vertical tab, form feed, carriage return, space and
  no-break space (0xA0); the line terminators (for \<open>^\<close>, \<open>$\<close> under the \<open>m\<close> flag and for
  \<open>.\<close>) are line feed and carriage return; \<open>\w\<close> is a letter, a digit or an underscore.
\<close>

abbreviation nl :: char where "nl \<equiv> CHR 0x0A"
abbreviation dq :: char where "dq \<equiv> CHR 0x22"
abbreviation bt :: char where "bt \<equiv> CHR 0x60"

definition isSpace :: "char \<Rightarrow> bool" where
  "isSpace c = (c = CHR 0x09 \<or> c = CHR 0x0A \<or> c = CHR 0x0B \<or> c = CHR 0x0C \<or> c = CHR 0x0D
                \<or> c = CHR 0x20 \<or> c = CHR 0xA0)"

definition isLineTerminator :: "char \<Rightarrow> bool" where
  "isLineTerminator c = (c = CHR 0x0A \<or> c = CHR 0x0D)"

definition isWordChar :: "char \<Rightarrow> bool" where
  "isWordChar c = (let n = (of_char c :: nat) in
     (48 \<le> n \<and> n \<le> 57) \<or> (65 \<le> n \<and> n \<le> 90) \<or> (97 \<le> n \<and> n \<le> 122) \<or> n = 95)"

definition trim :: "string \<Rightarrow> string" where
  "trim s = rev (dropWhile isSpace (rev (dropWhile isSpace s)))"

definition startsWith :: "string \<Rightarrow> string \<Rightarrow> bool" where
  "startsWith s p = (take (length p) s = p)"

definition endsWith :: "string \<Rightarrow> string \<Rightarrow> bool" where
  "endsWith s p = (length p \<le> length s \<and> drop (length s - length p) s = p)"

fun includesStr :: "string \<Rightarrow> string \<Rightarrow> bool" where
  "includesStr [] p = (p = [])"
| "includesStr (c # r) p = (startsWith (c # r) p \<or> includesStr r p)"

definition slice :: "string \<Rightarrow> nat \<Rightarrow> nat \<Rightarrow> string" where
  "slice s a b = take (b - a) (drop a s)"

text \<open>\<open>s.split('\n')\<close> and \<open>lines.join('\n')\<close>.\<close>

fun split_nl :: "string \<Rightarrow> string list" where
  "split_nl [] = [[]]"
| "split_nl (c # r) =
     (if c = nl then [] # split_nl r
      else (case split_nl r of l # ls \<Rightarrow> (c # l) # ls | [] \<Rightarrow> [[c]]))"

fun join_nl :: "string list \<Rightarrow> string" where
  "join_nl [] = []"
| "join_nl [l] = l"
| "join_nl (l # m # ls) = l @ nl # join_nl (m # ls)"

text \<open>
  A regular expression is read as a backtracking matcher in the list-of-successes style:
  a matcher maps the remaining input to the list of ways it can match a prefix of it, each
  a pair (consumed text, rest), in the order in which the JavaScript engine tries them.
  The match the engine reports is the head of the list of the whole pattern.
  \<open>greedy P n\<close> is a character class repeated at least \<open>n\<close> times, longest first
  (\<open>X*\<close>, \<open>X+\<close>); \<open>lazy P n\<close> is the same, shortest first (\<open>X*?\<close>, \<open>X+?\<close>).
\<close>

type_synonym matcher = "string \<Rightarrow> (string \<times> string) list"

definition lit :: "string \<Rightarrow> matcher" where
  "lit p s = (if startsWith s p then [(p, drop (length p) s)] else [])"

definition cls :: "(char \<Rightarrow> bool) \<Rightarrow> matcher" where
  "cls P s = (case s of [] \<Rightarrow> [] | c # r \<Rightarrow> if P c then [([c], r)] else [])"

definition greedy :: "(char \<Rightarrow> bool) \<Rightarrow> nat \<Rightarrow> matcher" where
  "greedy P n s = map (\<lambda>k. (take k s, drop k s)) (rev [n ..< Suc (length (takeWhile P s))])"

definition lazy :: "(char \<Rightarrow> bool) \<Rightarrow> nat \<Rightarrow> matcher" where
  "lazy P n s = map (\<lambda>k. (take k s, drop k s)) [n ..< Suc (length (takeWhile P s))]"

definition alt :: "matcher list \<Rightarrow> matcher" where
  "alt ms s = concat (map (\<lambda>m. m s) ms)"

definition first_of :: "'a list \<Rightarrow> 'a option" where
  "first_of xs = (case xs of [] \<Rightarrow> None | x # _ \<Rightarrow> Some x)"

text \<open>
  \<open>$\<close> under the \<open>m\<close> flag holds at the end of the input and before a line terminator;
  \<open>^\<close> under the \<open>m\<close> flag holds at the start of the input and after a line terminator;
  \<open>\b\<close> holds where exactly one of the previous and the next character is a word character.
\<close>

definition eol_m :: "string \<Rightarrow> bool" where
  "eol_m s = (case s of [] \<Rightarrow> True | c # _ \<Rightarrow> isLineTerminator c)"

definition bol_m :: "char option \<Rightarrow> bool" where
  "bol_m prev = (case prev of None \<Rightarrow> True | Some c \<Rightarrow> isLineTerminator c)"

definition word_boundary :: "char option \<Rightarrow> string \<Rightarrow> bool" where
  "word_boundary prev s =
     ((case prev of None \<Rightarrow> False | Some c \<Rightarrow> isWordChar c)
      \<noteq> (case s of [] \<Rightarrow> False | c # _ \<Rightarrow> isWordChar c))"

text \<open>
  \<open>text.replace(re, f)\<close> with a global \<open>re\<close>: scan left to right; at each position try
  the pattern; a match of length \<open>n\<close> is replaced and the scan resumes after it (after one
  more character, copied, when the match is empty). \<open>m s\<close> is the match at the head of
  \<open>s\<close>: its length and its replacement.
\<close>

function gsub :: "(string \<Rightarrow> (nat \<times> string) option) \<Rightarrow> string \<Rightarrow> string" where
  "gsub m [] = (case m [] of None \<Rightarrow> [] | Some (n, repl) \<Rightarrow> repl)"
| "gsub m (c # r) =
     (case m (c # r) of
        None \<Rightarrow> c # gsub m r
      | Some (n, repl) \<Rightarrow>
          if n = 0 then repl @ c # gsub m r else repl @ gsub m (drop n (c # r)))"
  by pat_completeness auto
termination
  by (relation "measure (\<lambda>(m, s). length s)") auto

text \<open>
  \<open>text.matchAll(re)\<close>: the successive matches (index, length of the match, first capture
  group), each search starting where the previous match ended (one further when it was
  empty). The second argument is the index of the head of the remaining input.
\<close>

function matchAll :: "(string \<Rightarrow> (nat \<times> string) option) \<Rightarrow> nat \<Rightarrow> string
    \<Rightarrow> (nat \<times> nat \<times> string) list" where
  "matchAll m i [] = (case m [] of None \<Rightarrow> [] | Some (n, cap) \<Rightarrow> [(i, n, cap)])"
| "matchAll m i (c # r) =
     (case m (c # r) of
        None \<Rightarrow> matchAll m (Suc i) r
      | Some (n, cap) \<Rightarrow>
          (i, n, cap) # (if n = 0 then matchAll m (Suc i) r
                         else matchAll m (i + n) (drop n (c # r))))"
  by pat_completeness auto
termination
  by (relation "measure (\<lambda>(m, i, s). length s)") auto

text \<open>
  \<open>text.match(re)\<close> and \<open>re.test(text)\<close> for a pattern without the \<open>g\<close> flag: the first
  position at which the pattern matches. \<open>P prev s\<close> says whether the pattern matches at
  the head of \<open>s\<close> when \<open>prev\<close> is the character before it.
\<close>

fun search :: "(char option \<Rightarrow> string \<Rightarrow> bool) \<Rightarrow> char option \<Rightarrow> nat \<Rightarrow> string \<Rightarrow> nat option" where
  "search P prev i [] = (if P prev [] then Some i else None)"
| "search P prev i (c # r) = (if P prev (c # r) then Some i else search P (Some c) (Suc i) r)"

section \<open>ChatMessage: escaping and the sanitizer\<close>

text \<open>\<open>text.replace(/c/g, repl)\<close> for a single literal character \<open>c\<close>.\<close>

definition replaceChar :: "char \<Rightarrow> string \<Rightarrow> string \<Rightarrow> string" where
  "replaceChar c repl s = gsub (\<lambda>r. first_of [(length x, repl). (x, _) \<leftarrow> lit [c] r]) s"

definition escapeHtml :: "string \<Rightarrow> string" where
  "escapeHtml text =
     replaceChar (CHR ''>'') ''&gt;'' (replaceChar (CHR ''<'') ''&lt;''
       (replaceChar (CHR ''&'') ''&amp;'' text))"

text \<open>Rule 1: \<open>.replace(/;\s*$/gm, '')\<close>.\<close>

definition semiMatch :: "string \<Rightarrow> (nat \<times> string) option" where
  "semiMatch s = first_of
     [(length a + length w, []).
        (a, r1) \<leftarrow> lit '';'' s, (w, r2) \<leftarrow> greedy isSpace 0 r1, eol_m r2]"

text \<open>Rule 2: \<open>.replace(/\[([^\]]+)\]/g, (_, label) => ...)\<close>.\<close>

definition quoteLabel :: "string \<Rightarrow> string" where
  "quoteLabel label =
     (let t = trim label in
      if startsWith t [dq] \<and> endsWith t [dq] then ''['' @ label @ '']''
      else if \<exists>c \<in> set t. c \<in> set ''()/:'' \<or> c = dq
        then ''['' @ [dq] @ replaceChar dq [] t @ [dq] @ '']''
      else ''['' @ label @ '']'')"

definition labelMatch :: "string \<Rightarrow> (nat \<times> string) option" where
  "labelMatch s = first_of
     [(length a + length label + length b, quoteLabel label).
        (a, r1) \<leftarrow> lit ''['' s, (label, r2) \<leftarrow> greedy (\<lambda>c. c \<noteq> CHR '']'') 1 r1,
        (b, r3) \<leftarrow> lit '']'' r2]"

text \<open>Rule 3: \<open>.replace(/\|([^|]*)\|/g, (_, label) => '|' + ... + '|')\<close>.\<close>

definition escapePipeLabel :: "string \<Rightarrow> string" where
  "escapePipeLabel label =
     ''|'' @ replaceChar (CHR '')'') ''#41;'' (replaceChar (CHR ''('') ''#40;'' label) @ ''|''"

definition pipeMatch :: "string \<Rightarrow> (nat \<times> string) option" where
  "pipeMatch s = first_of
     [(length a + length label + length b, escapePipeLabel label).
        (a, r1) \<leftarrow> lit ''|'' s, (label, r2) \<leftarrow> greedy (\<lambda>c. c \<noteq> CHR ''|'') 0 r1,
        (b, r3) \<leftarrow> lit ''|'' r2]"

text \<open>
  Rule 4: \<open>.replace(/(--|\.\.|-\.)\s+([^|>\n"]+?)\s+(-->|-.->|==>|\.\.>|\.->)/g, ...)\<close>.
  In the second alternative of the last group the dot is not escaped: it stands for any
  character but a line terminator.
\<close>

definition arrowHead :: matcher where
  "arrowHead = alt
     [lit ''-->'',
      (\<lambda>s. [(a @ d @ b, r3).
              (a, r1) \<leftarrow> lit ''-'' s, (d, r2) \<leftarrow> cls (\<lambda>c. \<not> isLineTerminator c) r1,
              (b, r3) \<leftarrow> lit ''->'' r2]),
      lit ''==>'', lit ''..>'', lit ''.->'']"

definition edgeMatch :: "string \<Rightarrow> (nat \<times> string) option" where
  "edgeMatch s = first_of
     [(length start + length w1 + length label + length w2 + length e,
       start @ '' '' @ [dq] @ trim label @ [dq] @ '' '' @ e).
        (start, r1) \<leftarrow> alt [lit ''--'', lit ''..'', lit ''-.''] s,
        (w1, r2) \<leftarrow> greedy isSpace 1 r1,
        (label, r3) \<leftarrow> lazy (\<lambda>c. c \<noteq> CHR ''|'' \<and> c \<noteq> CHR ''>'' \<and> c \<noteq> nl \<and> c \<noteq> dq) 1 r2,
        (w2, r4) \<leftarrow> greedy isSpace 1 r3,
        (e, r5) \<leftarrow> arrowHead r4]"

definition stripSemicolons :: "string \<Rightarrow> string" where
  "stripSemicolons = gsub semiMatch"

definition quoteLabels :: "string \<Rightarrow> string" where
  "quoteLabels = gsub labelMatch"

definition escapePipes :: "string \<Rightarrow> string" where
  "escapePipes = gsub pipeMatch"

definition quoteEdges :: "string \<Rightarrow> string" where
  "quoteEdges = gsub edgeMatch"

definition sanitizeMermaid :: "string \<Rightarrow> string" where
  "sanitizeMermaid text = quoteEdges (escapePipes (quoteLabels (stripSemicolons text)))"

section \<open>ChatMessage: segmentation\<close>

datatype seg_type = MD | MERMAID

record segment =
  seg_type :: seg_type
  seg_text :: string

text \<open>\<open>FENCED_MERMAID = /```mermaid\s*\n([\s\S]*?)```/g\<close>: the length of the match and
  the first capture group.\<close>

definition fence :: string where
  "fence = [bt, bt, bt]"

definition fencedMatch :: "string \<Rightarrow> (nat \<times> string) option" where
  "fencedMatch s = first_of
     [(length a + length w + length b + length body + length c, body).
        (a, r1) \<leftarrow> lit (fence @ ''mermaid'') s, (w, r2) \<leftarrow> greedy isSpace 0 r1,
        (b, r3) \<leftarrow> lit [nl] r2, (body, r4) \<leftarrow> lazy (\<lambda>c. True) 0 r3,
        (c, r5) \<leftarrow> lit fence r4]"

text \<open>\<open>MERMAID_KEYWORDS = /^(flowchart|graph|...|timeline)\b/m\<close>.\<close>

definition mermaidKeywords :: "string list" where
  "mermaidKeywords = [''flowchart'', ''graph'', ''sequenceDiagram'', ''classDiagram'',
     ''stateDiagram'', ''erDiagram'', ''gantt'', ''pie'', ''gitgraph'', ''mindmap'',
     ''timeline'']"

definition keywordAt :: "char option \<Rightarrow> string \<Rightarrow> bool" where
  "keywordAt prev s =
     (bol_m prev \<and>
      [k. (k, r) \<leftarrow> alt (map lit mermaidKeywords) s, word_boundary (Some (last k)) r] \<noteq> [])"

definition MERMAID_KEYWORDS_test :: "string \<Rightarrow> bool" where
  "MERMAID_KEYWORDS_test line = (search keywordAt None 0 line \<noteq> None)"

text \<open>\<open>/^\s*\w+[\[({]/.test(stripped)\<close>: without the \<open>m\<close> flag \<open>^\<close> holds at index 0 only.\<close>

definition nodeDeclTest :: "string \<Rightarrow> bool" where
  "nodeDeclTest s =
     ([b. (w, r1) \<leftarrow> greedy isSpace 0 s, (v, r2) \<leftarrow> greedy isWordChar 1 r1,
          (b, r3) \<leftarrow> cls (\<lambda>c. c \<in> set ''[({'') r2] \<noteq> [])"

text \<open>The condition under which a line stays in the diagram.\<close>

definition diagramLine :: "string \<Rightarrow> bool" where
  "diagramLine line =
     (let stripped = trim line in
        stripped = [] \<or>
        startsWith line ''    '' \<or>
        startsWith line [CHR 0x09] \<or>
        MERMAID_KEYWORDS_test line \<or>
        startsWith stripped ''style '' \<or>
        startsWith stripped ''classDef '' \<or>
        startsWith stripped ''class '' \<or>
        includesStr stripped ''-->'' \<or>
        includesStr stripped ''---'' \<or>
        includesStr stripped ''-.->'' \<or>
        startsWith stripped ''subgraph'' \<or>
        startsWith stripped ''end'' \<or>
        startsWith stripped ''direction '' \<or>
        nodeDeclTest stripped)"

text \<open>The \<open>for (const line of lines)\<close> loop: the state is \<open>inDiagram\<close>, \<open>mermaidLines\<close>
  and \<open>restLines\<close>.\<close>

fun lineLoop :: "string list \<Rightarrow> bool \<times> string list \<times> string list
    \<Rightarrow> bool \<times> string list \<times> string list" where
  "lineLoop [] st = st"
| "lineLoop (line # lines) (inDiagram, mermaidLines, restLines) =
     lineLoop lines
       (if inDiagram then
          (if diagramLine line then (True, mermaidLines @ [line], restLines)
           else (False, mermaidLines, restLines @ [line]))
        else (inDiagram, mermaidLines, restLines @ [line]))"

text \<open>The \<open>while\<close> loop that pops the trailing blank lines.\<close>

function popBlank :: "string list \<Rightarrow> string list" where
  "popBlank ls = (if ls \<noteq> [] \<and> trim (last ls) = [] then popBlank (butlast ls) else ls)"
  by pat_completeness auto
termination
  by (relation "measure length") auto

declare popBlank.simps [simp del]

record raw_mermaid =
  rawBefore :: string
  rawMermaid :: string
  rawAfter :: string

definition extractRawMermaid :: "string \<Rightarrow> raw_mermaid option" where
  "extractRawMermaid text =
     (case search keywordAt None 0 text of
        None \<Rightarrow> None
      | Some startIdx \<Rightarrow>
          (let beforeText = slice text 0 startIdx;
               lines = split_nl (drop startIdx text);
               (inDiagram, mermaidLines, restLines) = lineLoop lines (True, [], []);
               mermaidLines = popBlank mermaidLines
           in Some \<lparr>rawBefore = trim beforeText,
                    rawMermaid = trim (join_nl mermaidLines),
                    rawAfter = trim (join_nl restLines)\<rparr>))"

text \<open>The \<open>for (const match of text.matchAll(FENCED_MERMAID))\<close> loop: the state is
  \<open>segments\<close> and \<open>last\<close> (here \<open>lastEnd\<close>).\<close>

fun fencedStep :: "string \<Rightarrow> segment list \<times> nat \<Rightarrow> nat \<times> nat \<times> string
    \<Rightarrow> segment list \<times> nat" where
  "fencedStep text (segments, lastEnd) (index, n, body) =
     ((if index > lastEnd
         then segments @ [\<lparr>seg_type = MD, seg_text = slice text lastEnd index\<rparr>]
         else segments)
        @ [\<lparr>seg_type = MERMAID, seg_text = trim body\<rparr>],
      index + n)"

definition fencedLoop :: "string \<Rightarrow> segment list \<times> nat" where
  "fencedLoop text = foldl (fencedStep text) ([], 0) (matchAll fencedMatch 0 text)"

definition parseSegments :: "string \<Rightarrow> segment list" where
  "parseSegments text =
     (case fencedLoop text of (segments, lastEnd) \<Rightarrow>
        if length segments > 0 then
          (if lastEnd < length text
             then segments @ [\<lparr>seg_type = MD, seg_text = drop lastEnd text\<rparr>]
             else segments)
        else
          (case extractRawMermaid text of
             Some raw \<Rightarrow>
               (if rawBefore raw \<noteq> [] then [\<lparr>seg_type = MD, seg_text = rawBefore raw\<rparr>] else [])
               @ [\<lparr>seg_type = MERMAID, seg_text = rawMermaid raw\<rparr>]
               @ (if rawAfter raw \<noteq> [] then [\<lparr>seg_type = MD, seg_text = rawAfter raw\<rparr>] else [])
           | None \<Rightarrow> [\<lparr>seg_type = MD, seg_text = text\<rparr>]))"

section \<open>ChatMessage: rendering\<close>

text \<open>
  The units pushed to \<open>result\<close>: \<open>{type: 'html', html}\<close> and \<open>{type: 'svg', svg}\<close>.
  The libraries are parameters: \<open>marked.parse\<close>, \<open>mermaid.render(id, text)\<close>, whose promise
  is fulfilled with an svg (\<open>Inr\<close>) or rejected with an error (\<open>Inl\<close>), and the identifier
  built from \<open>Date.now()\<close> and \<open>Math.random()\<close> for the segment at a given position.
\<close>

datatype rendered_unit = HtmlUnit string | SvgUnit string

record render_env =
  marked_parse :: "string \<Rightarrow> string"
  mermaid_render :: "string \<Rightarrow> string \<Rightarrow> string + string"
  fresh_id :: "nat \<Rightarrow> string"

text \<open>
  What an invocation of \<open>render\<close> does, in program order: a call of \<open>mermaid.render\<close>, the
  settlement of the promise the function awaits, \<open>cleanupMermaidElement\<close>, \<open>console.warn\<close>,
  and the assignment \<open>rendered.value = result\<close>.
\<close>

datatype event =
    RenderCall string string
  | RenderSettled "string + string"
  | Cleanup string
  | Warn string
  | AssignRendered "rendered_unit list"

definition fallbackHtml :: "string \<Rightarrow> string" where
  "fallbackHtml text =
     ''<pre class='' @ [dq] @ ''bg-gray-200 p-2 rounded text-sm overflow-x-auto'' @ [dq]
       @ ''><code>'' @ escapeHtml text @ ''</code></pre>''"

text \<open>The \<open>else\<close> branch of the loop body: one diagram segment.\<close>

definition renderDiagram :: "render_env \<Rightarrow> string \<Rightarrow> string \<Rightarrow> rendered_unit \<times> event list" where
  "renderDiagram env ident text =
     (let sanitized = sanitizeMermaid text in
      case mermaid_render env ident sanitized of
        Inr svg \<Rightarrow> (SvgUnit svg, [RenderCall ident sanitized, RenderSettled (Inr svg)])
      | Inl err \<Rightarrow>
          (case mermaid_render env (ident @ ''r'') text of
             Inr svg \<Rightarrow>
               (SvgUnit svg,
                [RenderCall ident sanitized, RenderSettled (Inl err), Cleanup ident,
                 RenderCall (ident @ ''r'') text, RenderSettled (Inr svg)])
           | Inl err2 \<Rightarrow>
               (HtmlUnit (fallbackHtml text),
                [RenderCall ident sanitized, RenderSettled (Inl err), Cleanup ident,
                 RenderCall (ident @ ''r'') text, RenderSettled (Inl err2),
                 Cleanup (ident @ ''r''), Warn err2])))"

definition renderSegment :: "render_env \<Rightarrow> nat \<Rightarrow> segment \<Rightarrow> rendered_unit \<times> event list" where
  "renderSegment env k seg =
     (if seg_type seg = MD then (HtmlUnit (marked_parse env (seg_text seg)), [])
      else renderDiagram env (''mermaid-'' @ fresh_id env k) (seg_text seg))"

text \<open>The \<open>for (const seg of segs)\<close> loop: the state is \<open>result\<close> and the events so far.\<close>

fun renderLoop :: "render_env \<Rightarrow> nat \<Rightarrow> segment list \<Rightarrow> rendered_unit list \<times> event list
    \<Rightarrow> rendered_unit list \<times> event list" where
  "renderLoop env k [] st = st"
| "renderLoop env k (seg # segs) (result, evs) =
     (case renderSegment env k seg of
        (u, es) \<Rightarrow> renderLoop env (Suc k) segs (result @ [u], evs @ es))"

text \<open>\<open>render\<close>, on \<open>props.content\<close> (which may be undefined): the events of the invocation.\<close>

definition render :: "render_env \<Rightarrow> string option \<Rightarrow> event list" where
  "render env content =
     (let segs = parseSegments (case content of None \<Rightarrow> [] | Some c \<Rightarrow> c) in
      case renderLoop env 0 segs ([], []) of
        (result, evs) \<Rightarrow> evs @ [AssignRendered result])"

text \<open>The value of \<open>rendered\<close> after a sequence of events, from its value before.\<close>

fun renderedAfter :: "rendered_unit list \<Rightarrow> event list \<Rightarrow> rendered_unit list" where
  "renderedAfter r [] = r"
| "renderedAfter r (AssignRendered us # evs) = renderedAfter us evs"
| "renderedAfter r (_ # evs) = renderedAfter r evs"

section \<open>useChat\<close>

record message =
  role :: string
  content :: string
  sources :: "string list"

text \<open>An element of the array is a message, or \<open>undefined\<close> (\<open>None\<close>): \<open>messages.value[0]\<close>
  of an empty array.\<close>

record chat_state =
  messages :: "message option list"
  loading :: bool

definition greeting :: message where
  "greeting = \<lparr>role = ''assistant'',
     content = ''Ask me anything and I'' @ [CHR 0x27] @ ''ll retrieve the docs and cite relevant sources.'',
     sources = []\<rparr>"

definition initialChat :: chat_state where
  "initialChat = \<lparr>messages = [Some greeting], loading = False\<rparr>"

text \<open>
  \<open>sendMessage\<close> runs up to its \<open>await\<close>, and resumes when the promise of \<open>postQuery\<close> is
  settled: fulfilled with an answer and its sources (\<open>Inr\<close>) or rejected with an error whose
  message is given (\<open>Inl\<close>). Other handlers may run in between.
\<close>

definition sendMessageStart :: "string \<Rightarrow> chat_state \<Rightarrow> chat_state" where
  "sendMessageStart query st =
     st\<lparr>messages := messages st @ [Some \<lparr>role = ''user'', content = query, sources = []\<rparr>],
        loading := True\<rparr>"

definition sendMessageSettle :: "string + string \<times> string list \<Rightarrow> chat_state \<Rightarrow> chat_state" where
  "sendMessageSettle res st =
     (case res of
        Inr (answer, srcs) \<Rightarrow>
          st\<lparr>messages := messages st @ [Some \<lparr>role = ''assistant'', content = answer, sources = srcs\<rparr>],
             loading := False\<rparr>
      | Inl msg \<Rightarrow>
          st\<lparr>messages := messages st
                @ [Some \<lparr>role = ''assistant'', content = ''Error: '' @ msg, sources = []\<rparr>],
             loading := False\<rparr>)"

definition sendMessage :: "string \<Rightarrow> string + string \<times> string list \<Rightarrow> chat_state \<Rightarrow> chat_state" where
  "sendMessage query res st = sendMessageSettle res (sendMessageStart query st)"

definition clearChat :: "chat_state \<Rightarrow> chat_state" where
  "clearChat st = st\<lparr>messages := [case messages st of [] \<Rightarrow> None | m # _ \<Rightarrow> m]\<rparr>"

datatype chat_op = SendStart string | SendSettle "string + string \<times> string list" | ClearChat

fun chatStep :: "chat_state \<Rightarrow> chat_op \<Rightarrow> chat_state" where
  "chatStep st (SendStart q) = sendMessageStart q st"
| "chatStep st (SendSettle res) = sendMessageSettle res st"
| "chatStep st ClearChat = clearChat st"

definition chatRun :: "chat_op list \<Rightarrow> chat_state" where
  "chatRun ops = foldl chatStep initialChat ops"

section \<open>useFilters and the stats of the header\<close>

text \<open>The values a selection can hold: \<open>null\<close>, a string (a select), a number (the year
  input of type number).\<close>

datatype jsval = JNull | JStr string | JNum int

fun truthy :: "jsval \<Rightarrow> bool" where
  "truthy JNull = False"
| "truthy (JStr s) = (s \<noteq> [])"
| "truthy (JNum n) = (n \<noteq> 0)"

record filters_state =
  owners :: "string list"
  companies :: "string list"
  categories :: "string list"
  selectedOwner :: jsval
  selectedCompany :: jsval
  selectedCategory :: jsval
  selectedYear :: jsval

definition initialFilters :: filters_state where
  "initialFilters = \<lparr>owners = [], companies = [], categories = [],
     selectedOwner = JNull, selectedCompany = JNull, selectedCategory = JNull,
     selectedYear = JNull\<rparr>"

text \<open>
  \<open>await Promise.all([getOwners(), getCompanies(), getCategories()])\<close>: each promise is
  fulfilled with a list (\<open>Inr\<close>) or rejected with an error (\<open>Inl\<close>); the whole is rejected as
  soon as one is (here: with the error of the first in the array that is rejected).
  \<open>loadFilters\<close> has no \<open>try\<close>: it returns the error it is rejected with, if any, and the
  state.
\<close>

definition promiseAll3 :: "string + 'a \<Rightarrow> string + 'b \<Rightarrow> string + 'c \<Rightarrow> string + 'a \<times> 'b \<times> 'c" where
  "promiseAll3 a b c =
     (case a of Inl e \<Rightarrow> Inl e | Inr x \<Rightarrow>
      (case b of Inl e \<Rightarrow> Inl e | Inr y \<Rightarrow>
       (case c of Inl e \<Rightarrow> Inl e | Inr z \<Rightarrow> Inr (x, y, z))))"

definition loadFilters :: "string + string list \<Rightarrow> string + string list \<Rightarrow> string + string list
    \<Rightarrow> filters_state \<Rightarrow> string option \<times> filters_state" where
  "loadFilters getOwners getCompanies getCategories st =
     (case promiseAll3 getOwners getCompanies getCategories of
        Inl e \<Rightarrow> (Some e, st)
      | Inr (ow, co, ca) \<Rightarrow> (None, st\<lparr>owners := ow, companies := co, categories := ca\<rparr>))"

text \<open>The \<open>onMounted\<close> hook of the header: \<open>try { stats.value = await getStats() } catch {}\<close>.\<close>

definition statsOnMounted :: "string + 'a \<Rightarrow> 'a option \<Rightarrow> string option \<times> 'a option" where
  "statsOnMounted getStats stats =
     (case getStats of Inr v \<Rightarrow> (None, Some v) | Inl e \<Rightarrow> (None, stats))"

text \<open>\<open>getActiveFilters\<close>; the object \<open>f\<close> is a map from its keys. \<open>parseInt\<close> is a
  parameter.\<close>

definition getActiveFilters :: "(jsval \<Rightarrow> jsval) \<Rightarrow> filters_state \<Rightarrow> (string \<rightharpoonup> jsval)" where
  "getActiveFilters parseInt st =
     (let f = Map.empty;
          f = (if truthy (selectedOwner st) then f(''owner'' \<mapsto> selectedOwner st) else f);
          f = (if truthy (selectedCompany st) then f(''company'' \<mapsto> selectedCompany st) else f);
          f = (if truthy (selectedCategory st) then f(''category'' \<mapsto> selectedCategory st) else f);
          f = (if truthy (selectedYear st) then f(''year'' \<mapsto> parseInt (selectedYear st)) else f)
      in f)"

definition clearFilters :: "filters_state \<Rightarrow> filters_state" where
  "clearFilters st = st\<lparr>selectedOwner := JNull, selectedCompany := JNull,
     selectedCategory := JNull, selectedYear := JNull\<rparr>"

section \<open>Auxiliary notions\<close>

text \<open>What the three passes of \<open>escapeHtml\<close> make of one character.\<close>

definition escapeChar :: "char \<Rightarrow> string" where
  "escapeChar c = (if c = CHR ''&'' then ''&amp;'' else if c = CHR ''<'' then ''&lt;''
                   else if c = CHR ''>'' then ''&gt;'' else [c])"

definition entityAt :: "string \<Rightarrow> bool" where
  "entityAt s = (startsWith s ''&amp;'' \<or> startsWith s ''&lt;'' \<or> startsWith s ''&gt;'')"

text \<open>An environment whose diagram renderer rejects every input.\<close>

definition failingEnv :: render_env where
  "failingEnv = \<lparr>marked_parse = (\<lambda>s. s),
     mermaid_render = (\<lambda>ident text. Inl ''Parse error''),
     fresh_id = (\<lambda>k. ''1700000000000-k3j2'')\<rparr>"

text \<open>An environment whose diagram renderer accepts every input, and a text made of two
  fenced diagrams.\<close>

definition okEnv :: render_env where
  "okEnv = \<lparr>marked_parse = (\<lambda>s. ''<p>'' @ s @ ''</p>''),
     mermaid_render = (\<lambda>ident text. Inr (''<svg id='' @ ident @ ''>'' @ text @ ''</svg>'')),
     fresh_id = (\<lambda>k. if k = 0 then ''1700000000000-a'' else ''1700000000001-b'')\<rparr>"

definition twoDiagrams :: string where
  "twoDiagrams = fence @ ''mermaid'' @ [nl] @ ''A'' @ [nl] @ fence
     @ fence @ ''mermaid'' @ [nl] @ ''B'' @ [nl] @ fence"

text \<open>The units and the events of the segments of a list, the first being at position \<open>k\<close>.\<close>

definition isAssign :: "event \<Rightarrow> bool" where
  "isAssign e = (case e of AssignRendered us \<Rightarrow> True | _ \<Rightarrow> False)"

definition segUnits :: "render_env \<Rightarrow> nat \<Rightarrow> segment list \<Rightarrow> rendered_unit list" where
  "segUnits env k segs = map (\<lambda>(i, seg). fst (renderSegment env i seg)) (enumerate k segs)"

definition segEvents :: "render_env \<Rightarrow> nat \<Rightarrow> segment list \<Rightarrow> event list" where
  "segEvents env k segs = concat (map (\<lambda>(i, seg). snd (renderSegment env i seg)) (enumerate k segs))"

text \<open>A pattern leaves a text untouched when, at every position of the text, it does not
  match or it replaces its match by the match itself.\<close>

definition untouched :: "(string \<Rightarrow> (nat \<times> string) option) \<Rightarrow> string \<Rightarrow> bool" where
  "untouched m t =
     list_all (\<lambda>s. case m s of None \<Rightarrow> True | Some (n, repl) \<Rightarrow> n \<le> length s \<and> repl = take n s)
       (suffixes t)"


text \<open>
  The fenced pass as a recursion on the text still to be scanned, \<open>gap\<close> being the text
  scanned since the last fenced block: the segments that the loop over the matches and the
  trailing segment add up to.
\<close>

function fencedSegs :: "string \<Rightarrow> string \<Rightarrow> segment list" where
  "fencedSegs gap [] = (if gap \<noteq> [] then [\<lparr>seg_type = MD, seg_text = gap\<rparr>] else [])"
| "fencedSegs gap (c # r) =
     (case fencedMatch (c # r) of
        None \<Rightarrow> fencedSegs (gap @ [c]) r
      | Some (n, body) \<Rightarrow>
          (if gap \<noteq> [] then [\<lparr>seg_type = MD, seg_text = gap\<rparr>] else [])
          @ [\<lparr>seg_type = MERMAID, seg_text = trim body\<rparr>]
          @ (if n = 0 then fencedSegs [c] r else fencedSegs [] (drop n (c # r))))"
  by pat_completeness auto
termination
  by (relation "measure (\<lambda>(gap, s). length s)") auto

text \<open>\<open>text.replace(FENCED_MERMAID, (_, body) => f(body))\<close>: the text with each fenced block
  replaced by \<open>f\<close> of its body.\<close>

definition replaceFenced :: "(string \<Rightarrow> string) \<Rightarrow> string \<Rightarrow> string" where
  "replaceFenced f = gsub (\<lambda>s. map_option (\<lambda>(n, body). (n, f body)) (fencedMatch s))"

text \<open>The end of the fenced pass: the trailing prose segment, if any.\<close>

definition finishFenced :: "string \<Rightarrow> segment list \<times> nat \<Rightarrow> segment list" where
  "finishFenced text st =
     (case st of (segments, lastEnd) \<Rightarrow>
        if lastEnd < length text
          then segments @ [\<lparr>seg_type = MD, seg_text = drop lastEnd text\<rparr>]
          else segments)"

text \<open>Example texts: a keyword line before a fenced block; the two scenarios of the
  specification; a text that is one fenced block.\<close>

definition keywordBeforeFence :: string where
  "keywordBeforeFence = ''graph TD'' @ [nl] @ fence @ ''mermaid'' @ [nl] @ ''A-->B'' @ [nl] @ fence"

definition rawExample :: string where
  "rawExample = ''Notes'' @ [nl] @ ''flowchart TD'' @ [nl] @ ''  A --> B'' @ [nl] @ ''More text''"

definition fencedExample :: string where
  "fencedExample = ''Here is the flow:'' @ [nl] @ fence @ ''mermaid'' @ [nl] @ ''flowchart TD''
     @ [nl] @ ''A[Start] --> B[End (done)]'' @ [nl] @ fence @ [nl] @ ''Done.''"

definition fencedOnly :: string where
  "fencedOnly = fence @ ''mermaid'' @ [nl] @ ''A'' @ [nl] @ fence"

text \<open>
  A text consists of given pieces when it is the pieces, in order, with nothing but white
  space before the first, between two consecutive ones and after the last.
\<close>

primrec piecesOf :: "string list \<Rightarrow> string \<Rightarrow> bool" where
  "piecesOf [] t = list_all isSpace t"
| "piecesOf (p # ps) t = (\<exists>w rest. t = w @ p @ rest \<and> list_all isSpace w \<and> piecesOf ps rest)"

section \<open>Properties of ChatMessage\<close>

subsection \<open>Escaping and the fallback code block\<close>

lemma replaceChar_concat:
  "replaceChar c repl s = concat (map (\<lambda>x. if x = c then repl else [x]) s)"
  by (induction s) (simp_all add: replaceChar_def lit_def startsWith_def first_of_def)

lemma replaceChar_append:
  "replaceChar c repl (xs @ ys) = replaceChar c repl xs @ replaceChar c repl ys"
  by (simp add: replaceChar_concat)

lemma escapeHtml_concat: "escapeHtml s = concat (map escapeChar s)"
proof (induction s)
  case Nil
  show ?case by (simp add: escapeHtml_def replaceChar_concat)
next
  case (Cons c s)
  have "escapeHtml (c # s) = escapeHtml [c] @ escapeHtml s"
    using replaceChar_append [of _ _ "[c]" s]
    by (simp add: escapeHtml_def replaceChar_concat)
  moreover have "escapeHtml [c] = escapeChar c"
    by (simp add: escapeHtml_def replaceChar_concat escapeChar_def)
  ultimately show ?case using Cons by simp
qed

lemma startsWith_iff: "startsWith s p \<longleftrightarrow> (\<exists>r. s = p @ r)"
proof
  assume "startsWith s p"
  then have "s = p @ drop (length p) s"
    unfolding startsWith_def by (metis append_take_drop_id)
  then show "\<exists>r. s = p @ r" ..
next
  assume "\<exists>r. s = p @ r"
  then show "startsWith s p" by (auto simp: startsWith_def)
qed

lemma startsWith_append: "startsWith s p \<Longrightarrow> startsWith (s @ t) p"
  by (auto simp: startsWith_iff)

lemma entityAt_append: "entityAt s \<Longrightarrow> entityAt (s @ t)"
  by (auto simp: entityAt_def startsWith_append)

lemma escapeChar_amp:
  "i < length (escapeChar c) \<Longrightarrow> escapeChar c ! i = CHR ''&'' \<Longrightarrow> i = 0 \<and> entityAt (escapeChar c)"
  by (auto simp: escapeChar_def entityAt_def startsWith_def nth_Cons' split: if_splits)

lemma escaped_amp:
  "i < length (concat (map escapeChar s)) \<Longrightarrow> concat (map escapeChar s) ! i = CHR ''&''
   \<Longrightarrow> entityAt (drop i (concat (map escapeChar s)))"
proof (induction s arbitrary: i)
  case Nil
  then show ?case by simp
next
  case (Cons c s)
  show ?case
  proof (cases "i < length (escapeChar c)")
    case True
    with Cons.prems have "escapeChar c ! i = CHR ''&''" by (simp add: nth_append)
    with True have "i = 0" "entityAt (escapeChar c)" using escapeChar_amp by blast+
    then show ?thesis by (simp add: entityAt_append)
  next
    case False
    with Cons.prems have "i - length (escapeChar c) < length (concat (map escapeChar s))"
      and "concat (map escapeChar s) ! (i - length (escapeChar c)) = CHR ''&''"
      by (auto simp: nth_append)
    from Cons.IH [OF this] False show ?thesis by simp
  qed
qed

lemma escaped_no_angle:
  "CHR ''<'' \<notin> set (concat (map escapeChar s)) \<and> CHR ''>'' \<notin> set (concat (map escapeChar s))"
  by (induction s) (auto simp: escapeChar_def)


text \<open>
  C1 (as amended). A diagram segment always yields exactly one unit: the graphic of the
  sanitized text, else the graphic of the original text, else the fallback code block. The
  payload of the fallback is the original text, escaped, inside the fixed wrapper
  \<open><pre class="..."><code>\<close> ... \<open></code></pre>\<close>. The escaped text is the original with
  every \<open>&\<close>, \<open><\<close> and \<open>>\<close> replaced by \<open>&amp;\<close>, \<open>&lt;\<close> and \<open>&gt;\<close>; it has no \<open><\<close> and no
  \<open>>\<close>, and each \<open>&\<close> in it starts one of these three entities.
\<close>

theorem renderDiagram_fallback_escaped:
  "fst (renderDiagram env ident d) =
     (case mermaid_render env ident (sanitizeMermaid d) of
        Inr svg \<Rightarrow> SvgUnit svg
      | Inl e1 \<Rightarrow>
          (case mermaid_render env (ident @ ''r'') d of
             Inr svg \<Rightarrow> SvgUnit svg
           | Inl e2 \<Rightarrow>
               HtmlUnit (''<pre class='' @ [dq]
                  @ ''bg-gray-200 p-2 rounded text-sm overflow-x-auto'' @ [dq]
                  @ ''><code>'' @ escapeHtml d @ ''</code></pre>'')))
   \<and> escapeHtml d =
       concat (map (\<lambda>c. if c = CHR ''&'' then ''&amp;'' else if c = CHR ''<'' then ''&lt;''
                          else if c = CHR ''>'' then ''&gt;'' else [c]) d)
   \<and> CHR ''<'' \<notin> set (escapeHtml d) \<and> CHR ''>'' \<notin> set (escapeHtml d)
   \<and> (\<forall>i < length (escapeHtml d). escapeHtml d ! i = CHR ''&'' \<longrightarrow>
         startsWith (drop i (escapeHtml d)) ''&amp;''
         \<or> startsWith (drop i (escapeHtml d)) ''&lt;''
         \<or> startsWith (drop i (escapeHtml d)) ''&gt;'')"
proof -
  have unit: "fst (renderDiagram env ident d) =
     (case mermaid_render env ident (sanitizeMermaid d) of
        Inr svg \<Rightarrow> SvgUnit svg
      | Inl e1 \<Rightarrow>
          (case mermaid_render env (ident @ ''r'') d of
             Inr svg \<Rightarrow> SvgUnit svg
           | Inl e2 \<Rightarrow>
               HtmlUnit (''<pre class='' @ [dq]
                  @ ''bg-gray-200 p-2 rounded text-sm overflow-x-auto'' @ [dq]
                  @ ''><code>'' @ escapeHtml d @ ''</code></pre>'')))"
    by (simp add: renderDiagram_def fallbackHtml_def Let_def split: sum.splits)
  have chars: "escapeHtml d =
       concat (map (\<lambda>c. if c = CHR ''&'' then ''&amp;'' else if c = CHR ''<'' then ''&lt;''
                          else if c = CHR ''>'' then ''&gt;'' else [c]) d)"
    unfolding escapeHtml_concat escapeChar_def ..
  have angle: "CHR ''<'' \<notin> set (escapeHtml d) \<and> CHR ''>'' \<notin> set (escapeHtml d)"
    using escaped_no_angle [of d] by (simp add: escapeHtml_concat)
  have amp: "\<forall>i < length (escapeHtml d). escapeHtml d ! i = CHR ''&'' \<longrightarrow>
         startsWith (drop i (escapeHtml d)) ''&amp;''
         \<or> startsWith (drop i (escapeHtml d)) ''&lt;''
         \<or> startsWith (drop i (escapeHtml d)) ''&gt;''"
    using escaped_amp [of _ d] by (simp add: escapeHtml_concat entityAt_def)
  from unit chars angle amp show ?thesis by blast
qed

theorem renderDiagram_fallback_escaped_witness:
  "fst (renderDiagram failingEnv ''mermaid-1'' (''<script>&'' @ [dq] @ ''</script>'')) =
     HtmlUnit (''<pre class='' @ [dq] @ ''bg-gray-200 p-2 rounded text-sm overflow-x-auto''
        @ [dq] @ ''><code>&lt;script&gt;&amp;'' @ [dq] @ ''&lt;/script&gt;</code></pre>'')
   \<and> escapeHtml (''<script>&'' @ [dq] @ ''</script>'') ! 10 = CHR ''&''
   \<and> startsWith (drop 10 (escapeHtml (''<script>&'' @ [dq] @ ''</script>''))) ''&gt;''"
proof -
  let ?d = "''<script>&'' @ [dq] @ ''</script>''"
  note th = renderDiagram_fallback_escaped [of failingEnv "''mermaid-1''" ?d]
  have e: "escapeHtml ?d = ''&lt;script&gt;&amp;'' @ [dq] @ ''&lt;/script&gt;''"
    by (simp add: escapeHtml_concat escapeChar_def)
  have "fst (renderDiagram failingEnv ''mermaid-1'' ?d) =
     HtmlUnit (''<pre class='' @ [dq] @ ''bg-gray-200 p-2 rounded text-sm overflow-x-auto''
        @ [dq] @ ''><code>'' @ escapeHtml ?d @ ''</code></pre>'')"
    using th by (simp add: failingEnv_def)
  moreover have "escapeHtml ?d ! 10 = CHR ''&''" unfolding e by simp
  moreover have "10 < length (escapeHtml ?d)" unfolding e by simp
  ultimately show ?thesis using th unfolding e by (simp add: startsWith_def)
qed

text \<open>
  C1 as stated fails: when both attempts fail, the payload itself starts with \<open><pre\<close>, so
  it does contain \<open><\<close> and \<open>>\<close>.
\<close>

theorem fallback_payload_has_angle_brackets:
  "mermaid_render failingEnv ''mermaid-1'' (sanitizeMermaid ''A'') = Inl ''Parse error''
   \<and> mermaid_render failingEnv (''mermaid-1'' @ ''r'') ''A'' = Inl ''Parse error''
   \<and> fst (renderDiagram failingEnv ''mermaid-1'' ''A'') =
       HtmlUnit (''<pre class='' @ [dq] @ ''bg-gray-200 p-2 rounded text-sm overflow-x-auto''
          @ [dq] @ ''><code>A</code></pre>'')
   \<and> CHR ''<'' \<in> set (''<pre class='' @ [dq] @ ''bg-gray-200 p-2 rounded text-sm overflow-x-auto''
          @ [dq] @ ''><code>A</code></pre>'')
   \<and> CHR ''>'' \<in> set (''<pre class='' @ [dq] @ ''bg-gray-200 p-2 rounded text-sm overflow-x-auto''
          @ [dq] @ ''><code>A</code></pre>'')"
  by (simp add: failingEnv_def renderDiagram_def fallbackHtml_def escapeHtml_concat escapeChar_def)

subsection \<open>The render loop\<close>

lemma renderLoop_eq:
  "renderLoop env k segs (result, evs) = (result @ segUnits env k segs, evs @ segEvents env k segs)"
proof (induction segs arbitrary: k result evs)
  case Nil
  show ?case by (simp add: segUnits_def segEvents_def)
next
  case (Cons seg segs)
  show ?case
    by (cases "renderSegment env k seg") (simp add: Cons.IH segUnits_def segEvents_def)
qed

lemma render_eq:
  "render env cont =
     segEvents env 0 (parseSegments (case cont of None \<Rightarrow> [] | Some c \<Rightarrow> c))
     @ [AssignRendered (segUnits env 0 (parseSegments (case cont of None \<Rightarrow> [] | Some c \<Rightarrow> c)))]"
  by (simp add: render_def renderLoop_eq Let_def)

lemma renderSegment_no_assign: "filter isAssign (snd (renderSegment env k seg)) = []"
  by (simp add: renderSegment_def renderDiagram_def isAssign_def Let_def split: sum.splits)

lemma segEvents_no_assign: "filter isAssign (segEvents env k segs) = []"
  by (induction segs arbitrary: k) (simp_all add: segEvents_def renderSegment_no_assign)

lemma renderedAfter_no_assign: "filter isAssign evs = [] \<Longrightarrow> renderedAfter old evs = old"
proof (induction evs arbitrary: old)
  case Nil
  show ?case by simp
next
  case (Cons e evs)
  then show ?case by (cases e) (simp_all add: isAssign_def)
qed

lemma renderedAfter_append:
  "renderedAfter old (xs @ ys) = renderedAfter (renderedAfter old xs) ys"
proof (induction xs arbitrary: old)
  case Nil
  show ?case by simp
next
  case (Cons e xs)
  then show ?case by (cases e) simp_all
qed


text \<open>
  C5. An invocation of \<open>render\<close> assigns \<open>rendered\<close> exactly once, as its last event, after
  the events of all segments; the list assigned has one unit per segment, in the order of
  the segments (the unit at each position is the one of the segment at that position);
  before that last event \<open>rendered\<close> keeps the value it had, whatever the segments' renders
  did.
\<close>

theorem render_publishes_once_in_order:
  "render env cont =
     segEvents env 0 (parseSegments (case cont of None \<Rightarrow> [] | Some c \<Rightarrow> c))
       @ [AssignRendered
            (map (\<lambda>(k, seg). fst (renderSegment env k seg))
               (enumerate 0 (parseSegments (case cont of None \<Rightarrow> [] | Some c \<Rightarrow> c))))]
   \<and> filter isAssign (render env cont) =
       [AssignRendered
          (map (\<lambda>(k, seg). fst (renderSegment env k seg))
             (enumerate 0 (parseSegments (case cont of None \<Rightarrow> [] | Some c \<Rightarrow> c))))]
   \<and> length (map (\<lambda>(k, seg). fst (renderSegment env k seg))
               (enumerate 0 (parseSegments (case cont of None \<Rightarrow> [] | Some c \<Rightarrow> c))))
       = length (parseSegments (case cont of None \<Rightarrow> [] | Some c \<Rightarrow> c))
   \<and> (\<forall>n < length (render env cont). renderedAfter old (take n (render env cont)) = old)
   \<and> renderedAfter old (render env cont) =
       map (\<lambda>(k, seg). fst (renderSegment env k seg))
         (enumerate 0 (parseSegments (case cont of None \<Rightarrow> [] | Some c \<Rightarrow> c)))"
proof -
  define segs where "segs = parseSegments (case cont of None \<Rightarrow> [] | Some c \<Rightarrow> c)"
  define units where "units = map (\<lambda>(k, seg). fst (renderSegment env k seg)) (enumerate 0 segs)"
  define evs where "evs = segEvents env 0 segs"
  have r: "render env cont = evs @ [AssignRendered units]"
    by (simp add: render_eq segs_def units_def evs_def segUnits_def)
  have na: "filter isAssign evs = []"
    by (simp add: evs_def segEvents_no_assign)
  have one: "filter isAssign (render env cont) = [AssignRendered units]"
    by (simp add: r na isAssign_def)
  have len: "length units = length segs"
    by (simp add: units_def)
  have before: "renderedAfter old (take n (render env cont)) = old"
    if "n < length (render env cont)" for n
  proof -
    from that have "take n (render env cont) = take n evs" by (simp add: r)
    moreover have "filter isAssign (take n evs) = []"
      using na by (metis filter_empty_conv in_set_takeD)
    ultimately show ?thesis by (simp add: renderedAfter_no_assign)
  qed
  have after: "renderedAfter old (render env cont) = units"
    by (simp add: r renderedAfter_append renderedAfter_no_assign [OF na])
  from r one len before after show ?thesis
    unfolding segs_def units_def evs_def by blast
qed

theorem render_publishes_once_in_order_witness:
  "(4::nat) < length (render okEnv (Some twoDiagrams))
   \<and> renderedAfter [] (take 4 (render okEnv (Some twoDiagrams))) = []
   \<and> renderedAfter [] (render okEnv (Some twoDiagrams)) =
       [SvgUnit ''<svg id=mermaid-1700000000000-a>A</svg>'',
        SvgUnit ''<svg id=mermaid-1700000000001-b>B</svg>'']"
proof -
  note th = render_publishes_once_in_order [of okEnv "Some twoDiagrams" "[]"]
  have len: "(4::nat) < length (render okEnv (Some twoDiagrams))" by code_simp
  have units: "map (\<lambda>(k, seg). fst (renderSegment okEnv k seg))
         (enumerate 0 (parseSegments (case Some twoDiagrams of None \<Rightarrow> [] | Some c \<Rightarrow> c))) =
       [SvgUnit ''<svg id=mermaid-1700000000000-a>A</svg>'',
        SvgUnit ''<svg id=mermaid-1700000000001-b>B</svg>'']" by code_simp
  from th have "\<forall>n < length (render okEnv (Some twoDiagrams)).
      renderedAfter [] (take n (render okEnv (Some twoDiagrams))) = []" by blast
  with len have before: "renderedAfter [] (take 4 (render okEnv (Some twoDiagrams))) = []"
    by blast
  from th have "renderedAfter [] (render okEnv (Some twoDiagrams)) =
       map (\<lambda>(k, seg). fst (renderSegment okEnv k seg))
         (enumerate 0 (parseSegments (case Some twoDiagrams of None \<Rightarrow> [] | Some c \<Rightarrow> c)))"
    by blast
  with units have after: "renderedAfter [] (render okEnv (Some twoDiagrams)) =
       [SvgUnit ''<svg id=mermaid-1700000000000-a>A</svg>'',
        SvgUnit ''<svg id=mermaid-1700000000001-b>B</svg>'']" by simp
  from len before after show ?thesis by blast
qed

text \<open>
  C8 (as amended). The events of an invocation are the events of the first segment, then
  those of the second, and so on, then the assignment. A prose segment has no event; the
  events of a diagram segment start with the call of the renderer on the sanitized text,
  followed at once by the settlement of that call, and end with a settlement or (both
  attempts having failed) the warning. So the render of a segment is issued only after
  the render of the segment before it has settled, and the list is published after the
  last one has.
\<close>

theorem render_issues_sequentially:
  "render env cont =
     concat (map (\<lambda>(k, seg). snd (renderSegment env k seg))
               (enumerate 0 (parseSegments (case cont of None \<Rightarrow> [] | Some c \<Rightarrow> c))))
       @ [AssignRendered
            (map (\<lambda>(k, seg). fst (renderSegment env k seg))
               (enumerate 0 (parseSegments (case cont of None \<Rightarrow> [] | Some c \<Rightarrow> c))))]
   \<and> snd (renderSegment env k seg) =
       (if seg_type seg = MD then []
        else snd (renderDiagram env (''mermaid-'' @ fresh_id env k) (seg_text seg)))
   \<and> take 2 (snd (renderDiagram env ident d)) =
       [RenderCall ident (sanitizeMermaid d),
        RenderSettled (mermaid_render env ident (sanitizeMermaid d))]
   \<and> (\<exists>r. last (snd (renderDiagram env ident d)) = RenderSettled (Inr r)
          \<or> last (snd (renderDiagram env ident d)) = Warn r)"
proof -
  have a: "render env cont =
     concat (map (\<lambda>(k, seg). snd (renderSegment env k seg))
               (enumerate 0 (parseSegments (case cont of None \<Rightarrow> [] | Some c \<Rightarrow> c))))
       @ [AssignRendered
            (map (\<lambda>(k, seg). fst (renderSegment env k seg))
               (enumerate 0 (parseSegments (case cont of None \<Rightarrow> [] | Some c \<Rightarrow> c))))]"
    by (simp add: render_eq segUnits_def segEvents_def)
  have b: "snd (renderSegment env k seg) =
       (if seg_type seg = MD then []
        else snd (renderDiagram env (''mermaid-'' @ fresh_id env k) (seg_text seg)))"
    by (simp add: renderSegment_def)
  have c: "take 2 (snd (renderDiagram env ident d)) =
       [RenderCall ident (sanitizeMermaid d),
        RenderSettled (mermaid_render env ident (sanitizeMermaid d))]"
    by (simp add: renderDiagram_def Let_def split: sum.splits)
  have d: "\<exists>r. last (snd (renderDiagram env ident d)) = RenderSettled (Inr r)
          \<or> last (snd (renderDiagram env ident d)) = Warn r"
    by (simp add: renderDiagram_def Let_def split: sum.splits)
  from a b c d show ?thesis by blast
qed

text \<open>
  C8 as stated fails: with two diagram segments, the renderer is called for the second
  only after the call for the first has settled.
\<close>

theorem second_render_issued_after_first_settled:
  "parseSegments twoDiagrams =
     [\<lparr>seg_type = MERMAID, seg_text = ''A''\<rparr>, \<lparr>seg_type = MERMAID, seg_text = ''B''\<rparr>]
   \<and> render okEnv (Some twoDiagrams) =
       [RenderCall ''mermaid-1700000000000-a'' ''A'',
        RenderSettled (Inr ''<svg id=mermaid-1700000000000-a>A</svg>''),
        RenderCall ''mermaid-1700000000001-b'' ''B'',
        RenderSettled (Inr ''<svg id=mermaid-1700000000001-b>B</svg>''),
        AssignRendered [SvgUnit ''<svg id=mermaid-1700000000000-a>A</svg>'',
                        SvgUnit ''<svg id=mermaid-1700000000001-b>B</svg>'']]"
  by code_simp

subsection \<open>Matchers\<close>

lemma first_of_Some: "first_of xs = Some x \<Longrightarrow> x \<in> set xs"
  by (cases xs) (simp_all add: first_of_def)

lemma lit_set: "(x, r) \<in> set (lit p s) \<longleftrightarrow> x = p \<and> s = p @ r"
  by (auto simp: lit_def startsWith_iff)

lemma take_takeWhile_all:
  "k \<le> length (takeWhile P s) \<Longrightarrow> list_all P (take k s)"
proof (induction s arbitrary: k)
  case Nil
  then show ?case by simp
next
  case (Cons c s)
  then show ?case by (cases k) (simp_all split: if_splits)
qed

lemma split_at_set:
  assumes "(x, r) \<in> (\<lambda>k. (take k s, drop k s)) ` {n ..< Suc (length (takeWhile P s))}"
  shows "s = x @ r \<and> n \<le> length x \<and> list_all P x"
proof -
  from assms obtain k where k: "n \<le> k" "k \<le> length (takeWhile P s)"
    and x: "x = take k s" and r: "r = drop k s" by auto
  have "length (takeWhile P s) \<le> length s" by (rule length_takeWhile_le)
  with k have "length x = k" by (simp add: x)
  with k x r show ?thesis by (simp add: take_takeWhile_all)
qed

lemma greedy_set:
  "(x, r) \<in> set (greedy P n s) \<Longrightarrow> s = x @ r \<and> n \<le> length x \<and> list_all P x"
  by (rule split_at_set) (simp only: greedy_def set_map set_rev set_upt)

lemma lazy_set:
  "(x, r) \<in> set (lazy P n s) \<Longrightarrow> s = x @ r \<and> n \<le> length x \<and> list_all P x"
  by (rule split_at_set) (simp only: lazy_def set_map set_upt)

lemma in_bind:
  "y \<in> set (concat (map (\<lambda>(x, r). f x r) xs)) \<longleftrightarrow> (\<exists>x r. (x, r) \<in> set xs \<and> y \<in> set (f x r))"
  by auto

lemma in_map_pair:
  "y \<in> set (map (\<lambda>(x, r). g x r) xs) \<longleftrightarrow> (\<exists>x r. (x, r) \<in> set xs \<and> y = g x r)"
  by force

lemma alt_set: "(x, r) \<in> set (alt ms s) \<longleftrightarrow> (\<exists>m \<in> set ms. (x, r) \<in> set (m s))"
  by (auto simp: alt_def)

subsection \<open>The sanitizer\<close>

lemma greedy_head:
  assumes "n \<le> length (takeWhile P s)"
  shows "greedy P n s =
     (takeWhile P s, dropWhile P s) # map (\<lambda>k. (take k s, drop k s)) (rev [n ..< length (takeWhile P s)])"
proof -
  have "take (length (takeWhile P s)) s = takeWhile P s"
    by (metis append_eq_conv_conj takeWhile_dropWhile_id)
  moreover have "drop (length (takeWhile P s)) s = dropWhile P s"
    by (metis append_eq_conv_conj takeWhile_dropWhile_id)
  ultimately show ?thesis using assms by (simp add: greedy_def)
qed

lemma lit_Cons_neq: "c \<noteq> p \<Longrightarrow> lit [p] (c # r) = []"
  by (simp add: lit_def startsWith_def)

lemma lit_append: "lit p (p @ r) = [(p, r)]"
  by (simp add: lit_def startsWith_def)

lemma labelMatch_no_bracket: "c \<noteq> CHR ''['' \<Longrightarrow> labelMatch (c # r) = None"
  by (simp add: labelMatch_def lit_Cons_neq first_of_def)

lemma gsub_skip:
  "(\<And>c r. c \<in> set pre \<Longrightarrow> m (c # r) = None) \<Longrightarrow> gsub m (pre @ s) = pre @ gsub m s"
  by (induction pre) simp_all

lemma labelMatch_label:
  assumes "L \<noteq> []" and "CHR '']'' \<notin> set L"
  shows "labelMatch (''['' @ L @ '']'' @ post) = Some (length L + 2, quoteLabel L)"
proof -
  let ?P = "\<lambda>c. c \<noteq> CHR '']''"
  have tw: "takeWhile ?P (L @ '']'' @ post) = L"
    using assms(2) by (subst takeWhile_append2) auto
  have dw: "dropWhile ?P (L @ '']'' @ post) = '']'' @ post"
    using assms(2) by (subst dropWhile_append2) auto
  have len: "1 \<le> length (takeWhile ?P (L @ '']'' @ post))"
    using assms(1) unfolding tw by (cases L) simp_all
  have l1: "lit ''['' (''['' @ L @ '']'' @ post) = [(''['', L @ '']'' @ post)]"
    by (rule lit_append)
  obtain rest where g: "greedy ?P 1 (L @ '']'' @ post) = (L, '']'' @ post) # rest"
    using greedy_head [OF len] unfolding tw dw by blast
  have l2: "lit '']'' ('']'' @ post) = [('']'', post)]"
    by (rule lit_append)
  have g': "greedy ?P (Suc 0) (L @ CHR '']'' # post) = (L, CHR '']'' # post) # rest"
    using g by simp
  have l1': "lit ''['' (CHR ''['' # L @ CHR '']'' # post) = [(''['', L @ CHR '']'' # post)]"
    using l1 by simp
  have l2': "lit '']'' (CHR '']'' # post) = [('']'', post)]"
    using l2 by simp
  show ?thesis
    unfolding labelMatch_def by (simp add: l1' g' l2' first_of_def)
qed

lemma gsub_match:
  "m (c # r) = Some (n, repl) \<Longrightarrow> 0 < n \<Longrightarrow> gsub m (c # r) = repl @ gsub m (drop n (c # r))"
  by simp

lemma replaceChar_delete: "replaceChar c [] s = filter (\<lambda>x. x \<noteq> c) s"
  by (induction s) (simp_all add: replaceChar_concat)

lemma gsub_skip_prefix:
  "(\<forall>k < length pre. m (drop k (pre @ s)) = None) \<Longrightarrow> gsub m (pre @ s) = pre @ gsub m s"
proof (induction pre)
  case Nil
  show ?case by simp
next
  case (Cons c pre)
  from Cons.prems have h0: "m (c # pre @ s) = None" by force
  have "\<forall>k < length pre. m (drop k (pre @ s)) = None"
  proof (intro allI impI)
    fix k assume "k < length pre"
    then have "Suc k < length (c # pre)" by simp
    with Cons.prems have "m (drop (Suc k) ((c # pre) @ s)) = None" by blast
    then show "m (drop k (pre @ s)) = None" by simp
  qed
  from Cons.IH [OF this] h0 show ?case by simp
qed

lemma labelMatch_shape:
  assumes "labelMatch s = Some (n, repl)"
  shows "\<exists>L post. s = ''['' @ L @ '']'' @ post \<and> L \<noteq> [] \<and> CHR '']'' \<notin> set L"
proof -
  have "(n, repl) \<in> set
     [(length a + length label + length b, quoteLabel label).
        (a, r1) \<leftarrow> lit ''['' s, (label, r2) \<leftarrow> greedy (\<lambda>c. c \<noteq> CHR '']'') 1 r1,
        (b, r3) \<leftarrow> lit '']'' r2]"
    using assms unfolding labelMatch_def by (rule first_of_Some)
  then obtain a r1 label r2 b r3 where
    "(a, r1) \<in> set (lit ''['' s)" "(label, r2) \<in> set (greedy (\<lambda>c. c \<noteq> CHR '']'') 1 r1)"
    "(b, r3) \<in> set (lit '']'' r2)"
    by (simp only: in_bind in_map_pair prod.inject) (elim exE conjE, rule that)
  note m = this
  from m(1) have s: "s = ''['' @ r1" by (simp add: lit_set)
  from greedy_set [OF m(2)] have r1: "r1 = label @ r2" and l: "1 \<le> length label"
    and a: "list_all (\<lambda>c. c \<noteq> CHR '']'') label" by simp_all
  from m(3) have r2: "r2 = '']'' @ r3" by (simp add: lit_set)
  have "s = ''['' @ label @ '']'' @ r3" unfolding s r1 r2 by simp
  moreover have "label \<noteq> []" using l by auto
  moreover have "CHR '']'' \<notin> set label" using a by (auto simp: list_all_iff)
  ultimately show ?thesis by blast
qed

lemma labelMatch_None_iff:
  "(labelMatch s = None)
     = (\<nexists>L post. s = ''['' @ L @ '']'' @ post \<and> L \<noteq> [] \<and> CHR '']'' \<notin> set L)"
proof
  assume n: "labelMatch s = None"
  show "\<nexists>L post. s = ''['' @ L @ '']'' @ post \<and> L \<noteq> [] \<and> CHR '']'' \<notin> set L"
  proof
    assume "\<exists>L post. s = ''['' @ L @ '']'' @ post \<and> L \<noteq> [] \<and> CHR '']'' \<notin> set L"
    then obtain L post where "s = ''['' @ L @ '']'' @ post" "L \<noteq> []" "CHR '']'' \<notin> set L"
      by (elim exE conjE)
    with labelMatch_label [of L post] n show False by simp
  qed
next
  assume h: "\<nexists>L post. s = ''['' @ L @ '']'' @ post \<and> L \<noteq> [] \<and> CHR '']'' \<notin> set L"
  show "labelMatch s = None"
  proof (cases "labelMatch s")
    case None
    then show ?thesis .
  next
    case (Some a)
    obtain n repl where "a = (n, repl)" by (cases a)
    with Some labelMatch_shape [of s n repl] h show ?thesis by simp
  qed
qed

lemma upto_all: "list_all P [0 ..< n] \<Longrightarrow> \<forall>k < n. P k"
  by (simp add: list_all_iff)

text \<open>
  C4 (as amended). The sanitizer is the four passes in order, the label pass being the
  second: it reads the output of the first pass, and the third and fourth passes read its
  output. A bracketed label starts at a position of a text exactly when the text from there
  on is \<open>[\<close>, a non-empty \<open>L\<close> without \<open>]\<close>, and \<open>]\<close>. On a text whose first bracketed label
  is \<open>[L]\<close> (no label starts before it), the label pass copies what precedes the label,
  then: leaves \<open>[L]\<close> as it is when the trimmed label starts and ends with a double quote;
  otherwise, when the trimmed label has one of \<open>( ) / :\<close> or a double quote, writes the
  trimmed label without its double quotes, wrapped in double quotes, in the brackets;
  otherwise leaves \<open>[L]\<close> as it is; and goes on in the same way with the text after the
  label, so with every bracketed label of the text in turn; a text in which no label starts
  is left as it is. The sanitizer turns \<open>A[Start] --> B[End (done)]\<close> into
  \<open>A[Start] --> B["End (done)"]\<close>.
\<close>

theorem quoteLabels_bracketed_label:
  assumes "\<forall>k < length pre. labelMatch (drop k (pre @ ''['' @ L @ '']'' @ post)) = None"
      and "L \<noteq> []" and "CHR '']'' \<notin> set L"
  shows "quoteLabels (pre @ ''['' @ L @ '']'' @ post) =
           pre @ (if startsWith (trim L) [dq] \<and> endsWith (trim L) [dq] then ''['' @ L @ '']''
                  else if \<exists>c \<in> set (trim L). c \<in> {CHR ''('', CHR '')'', CHR ''/'', CHR '':'', dq}
                    then ''['' @ [dq] @ filter (\<lambda>c. c \<noteq> dq) (trim L) @ [dq] @ '']''
                  else ''['' @ L @ '']'')
             @ quoteLabels post
         \<and> (labelMatch s = None)
             = (\<nexists>M rest. s = ''['' @ M @ '']'' @ rest \<and> M \<noteq> [] \<and> CHR '']'' \<notin> set M)
         \<and> ((\<forall>k \<le> length u. labelMatch (drop k u) = None) \<longrightarrow> quoteLabels u = u)
         \<and> sanitizeMermaid text = quoteEdges (escapePipes (quoteLabels (stripSemicolons text)))
         \<and> sanitizeMermaid ''A[Start] --> B[End (done)]''
             = ''A[Start] --> B['' @ [dq] @ ''End (done)'' @ [dq] @ '']''"
proof -
  have skip: "gsub labelMatch (pre @ ''['' @ L @ '']'' @ post)
                = pre @ gsub labelMatch (''['' @ L @ '']'' @ post)"
    using assms(1) by (rule gsub_skip_prefix)
  have m: "labelMatch (''['' @ L @ '']'' @ post) = Some (length L + 2, quoteLabel L)"
    using assms(2,3) by (rule labelMatch_label)
  have "gsub labelMatch (''['' @ L @ '']'' @ post)
          = quoteLabel L @ gsub labelMatch (drop (length L + 2) (''['' @ L @ '']'' @ post))"
    using gsub_match [of labelMatch "CHR ''[''" "L @ '']'' @ post" "length L + 2" "quoteLabel L"] m
    by simp
  then have a: "quoteLabels (pre @ ''['' @ L @ '']'' @ post) = pre @ quoteLabel L @ quoteLabels post"
    unfolding quoteLabels_def skip by simp
  have b: "quoteLabel L =
      (if startsWith (trim L) [dq] \<and> endsWith (trim L) [dq] then ''['' @ L @ '']''
       else if \<exists>c \<in> set (trim L). c \<in> {CHR ''('', CHR '')'', CHR ''/'', CHR '':'', dq}
         then ''['' @ [dq] @ filter (\<lambda>c. c \<noteq> dq) (trim L) @ [dq] @ '']''
       else ''['' @ L @ '']'')"
    by (simp add: quoteLabel_def Let_def replaceChar_delete)
  have c: "(labelMatch s = None)
             = (\<nexists>M rest. s = ''['' @ M @ '']'' @ rest \<and> M \<noteq> [] \<and> CHR '']'' \<notin> set M)"
    by (rule labelMatch_None_iff)
  have d: "quoteLabels u = u" if h: "\<forall>k \<le> length u. labelMatch (drop k u) = None"
  proof -
    from h have "labelMatch (drop (length u) u) = None" by blast
    then have "gsub labelMatch [] = []" by simp
    moreover from h have "\<forall>k < length u. labelMatch (drop k (u @ [])) = None" by simp
    ultimately show ?thesis
      using gsub_skip_prefix [of u labelMatch "[]"] by (simp add: quoteLabels_def)
  qed
  have e: "sanitizeMermaid ''A[Start] --> B[End (done)]''
             = ''A[Start] --> B['' @ [dq] @ ''End (done)'' @ [dq] @ '']''"
    by code_simp
  have f: "sanitizeMermaid text = quoteEdges (escapePipes (quoteLabels (stripSemicolons text)))"
    by (simp add: sanitizeMermaid_def)
  show ?thesis unfolding a b [symmetric] using c d e f by blast
qed

theorem quoteLabels_bracketed_label_witness:
  "list_all (\<lambda>k. labelMatch (drop k (''C[] D'' @ ''['' @ ''a/b'' @ '']'' @ [])) = None)
     [0 ..< length ''C[] D'']
   \<and> quoteLabels ''C[] D[a/b]'' = ''C[] D['' @ [dq] @ ''a/b'' @ [dq] @ '']''"
proof -
  have h0: "list_all (\<lambda>k. labelMatch (drop k (''C[] D'' @ ''['' @ ''a/b'' @ '']'' @ [])) = None)
          [0 ..< length ''C[] D'']" by code_simp
  then have h1: "\<forall>k < length ''C[] D''.
      labelMatch (drop k (''C[] D'' @ ''['' @ ''a/b'' @ '']'' @ [])) = None"
    by (rule upto_all)
  have h2: "''a/b'' \<noteq> []" by simp
  have h3: "CHR '']'' \<notin> set ''a/b''" by simp
  have t: "trim ''a/b'' = ''a/b''" by code_simp
  have r: "quoteLabels [] = []" by code_simp
  from quoteLabels_bracketed_label [OF h1 h2 h3]
  have "quoteLabels (''C[] D'' @ ''['' @ ''a/b'' @ '']'' @ []) =
           ''C[] D'' @ (if startsWith (trim ''a/b'') [dq] \<and> endsWith (trim ''a/b'') [dq]
                  then ''['' @ ''a/b'' @ '']''
                  else if \<exists>c \<in> set (trim ''a/b''). c \<in> {CHR ''('', CHR '')'', CHR ''/'', CHR '':'', dq}
                    then ''['' @ [dq] @ filter (\<lambda>c. c \<noteq> dq) (trim ''a/b'') @ [dq] @ '']''
                  else ''['' @ ''a/b'' @ '']'')
             @ quoteLabels []" by (rule conjunct1)
  then have "quoteLabels ''C[] D[a/b]'' = ''C[] D['' @ [dq] @ ''a/b'' @ [dq] @ '']''"
    unfolding t r by (simp add: startsWith_def endsWith_def)
  with h0 show ?thesis by (intro conjI)
qed

text \<open>
  C4 as stated, of every label of the input of the sanitizer, fails: a label without any of
  the special characters, which the label pass leaves as it is, can still be changed by the
  fourth pass, which quotes an edge label inside it.
\<close>

theorem label_changed_by_edge_rule:
  "quoteLabels ''A[x -- y --> z]'' = ''A[x -- y --> z]''
   \<and> sanitizeMermaid ''A[x -- y --> z]'' = ''A[x -- '' @ [dq] @ ''y'' @ [dq] @ '' --> z]''"
  by code_simp





lemma semiMatch_shape:
  assumes "semiMatch s = Some (n, repl)"
  shows "\<exists>w r. s = '';'' @ w @ r \<and> n = 1 + length w \<and> repl = []"
proof -
  have "(n, repl) \<in> set
     [(length a + length w, []).
        (a, r1) \<leftarrow> lit '';'' s, (w, r2) \<leftarrow> greedy isSpace 0 r1, eol_m r2]"
    using assms unfolding semiMatch_def by (rule first_of_Some)
  then obtain a r1 w r2 where
    "(a, r1) \<in> set (lit '';'' s)" "(w, r2) \<in> set (greedy isSpace 0 r1)"
    "(n, repl) \<in> set (if eol_m r2 then [(length a + length w, [])] else [])"
    by (simp only: in_bind) (elim exE conjE, rule that)
  note m = this
  from m(1) have a: "a = '';''" and s: "s = a @ r1" by (simp_all add: lit_set)
  from greedy_set [OF m(2)] have r1: "r1 = w @ r2" by simp
  have "s = '';'' @ w @ r2" unfolding s r1 a by simp
  moreover from m(3) a have "n = 1 + length w" "repl = []" by (simp_all split: if_splits)
  ultimately show ?thesis by blast
qed

lemma untouched_semiMatch:
  "untouched semiMatch t = list_all (\<lambda>s. semiMatch s = None) (suffixes t)"
proof -
  have "(case semiMatch s of None \<Rightarrow> True | Some (n, repl) \<Rightarrow> n \<le> length s \<and> repl = take n s)
          = (semiMatch s = None)" for s
  proof (cases "semiMatch s")
    case None
    then show ?thesis by simp
  next
    case (Some a)
    obtain n repl where a: "a = (n, repl)" by (cases a)
    from semiMatch_shape [of s n repl] Some a obtain w r where
      "s = '';'' @ w @ r" "n = 1 + length w" "repl = []" by auto
    then have "repl \<noteq> take n s" by simp
    with Some a show ?thesis by simp
  qed
  then show ?thesis by (simp add: untouched_def)
qed

lemma edgeMatch_shape:
  assumes "edgeMatch s = Some (n, repl)"
  shows "\<exists>start w1 label r3 e. s = start @ w1 @ label @ r3 \<and> length start = 2
           \<and> w1 \<noteq> [] \<and> list_all isSpace w1 \<and> label \<noteq> [] \<and> dq \<notin> set label
           \<and> repl = start @ '' '' @ [dq] @ trim label @ [dq] @ '' '' @ e"
proof -
  have "(n, repl) \<in> set
     [(length start + length w1 + length label + length w2 + length e,
       start @ '' '' @ [dq] @ trim label @ [dq] @ '' '' @ e).
        (start, r1) \<leftarrow> alt [lit ''--'', lit ''..'', lit ''-.''] s,
        (w1, r2) \<leftarrow> greedy isSpace 1 r1,
        (label, r3) \<leftarrow> lazy (\<lambda>c. c \<noteq> CHR ''|'' \<and> c \<noteq> CHR ''>'' \<and> c \<noteq> nl \<and> c \<noteq> dq) 1 r2,
        (w2, r4) \<leftarrow> greedy isSpace 1 r3,
        (e, r5) \<leftarrow> arrowHead r4]"
    using assms unfolding edgeMatch_def by (rule first_of_Some)
  then obtain start r1 w1 r2 label r3 w2 r4 e r5 where
    "(start, r1) \<in> set (alt [lit ''--'', lit ''..'', lit ''-.''] s)"
    "(w1, r2) \<in> set (greedy isSpace 1 r1)"
    "(label, r3) \<in> set (lazy (\<lambda>c. c \<noteq> CHR ''|'' \<and> c \<noteq> CHR ''>'' \<and> c \<noteq> nl \<and> c \<noteq> dq) 1 r2)"
    "(n, repl) = (length start + length w1 + length label + length w2 + length e,
       start @ '' '' @ [dq] @ trim label @ [dq] @ '' '' @ e)"
    "(w2, r4) \<in> set (greedy isSpace 1 r3)" "(e, r5) \<in> set (arrowHead r4)"
    by (simp only: in_bind in_map_pair) (elim exE conjE, rule that)
  note m = this
  from m(1) have st: "s = start @ r1" "length start = 2"
    by (auto simp: alt_set lit_set)
  from greedy_set [OF m(2)] have w1: "r1 = w1 @ r2" "1 \<le> length w1" "list_all isSpace w1"
    by simp_all
  from lazy_set [OF m(3)] have lb: "r2 = label @ r3" "1 \<le> length label"
    "list_all (\<lambda>c. c \<noteq> CHR ''|'' \<and> c \<noteq> CHR ''>'' \<and> c \<noteq> nl \<and> c \<noteq> dq) label"
    by simp_all
  have "s = start @ w1 @ label @ r3" unfolding st(1) w1(1) lb(1) by simp
  moreover have "w1 \<noteq> []" "label \<noteq> []" using w1(2) lb(2) by auto
  moreover have "dq \<notin> set label" using lb(3) by (auto simp: list_all_iff)
  moreover from m(4) have "repl = start @ '' '' @ [dq] @ trim label @ [dq] @ '' '' @ e" by simp
  ultimately show ?thesis using st(2) w1(3) by blast
qed

lemma edgeMatch_changes:
  assumes "edgeMatch s = Some (n, repl)"
  shows "repl \<noteq> take n s"
proof
  assume eq: "repl = take n s"
  from edgeMatch_shape [OF assms] obtain start w1 label r3 e where
    s: "s = start @ w1 @ label @ r3" and l: "length start = 2"
    and w1: "w1 \<noteq> []" "list_all isSpace w1" and lb: "label \<noteq> []" "dq \<notin> set label"
    and repl: "repl = start @ '' '' @ [dq] @ trim label @ [dq] @ '' '' @ e"
    by (elim exE conjE)
  have r3: "repl ! 3 = dq" and lr: "3 < length repl"
    using l by (simp_all add: repl nth_append)
  from lr eq have "take n s ! 3 = s ! 3" by simp
  with r3 eq have s3: "s ! 3 = dq" by simp
  have "s ! 3 = (w1 @ label @ r3) ! 1" using l by (simp add: s nth_append)
  also have "\<dots> \<noteq> dq"
  proof (cases "length w1 = 1")
    case True
    then have "(w1 @ label @ r3) ! 1 = label ! 0" using lb(1) by (simp add: nth_append)
    moreover have "label ! 0 \<in> set label" using lb(1) by simp
    ultimately show ?thesis using lb(2) by auto
  next
    case False
    with w1(1) have "1 < length w1" by (cases w1) auto
    then have "(w1 @ label @ r3) ! 1 = w1 ! 1" "w1 ! 1 \<in> set w1" by (simp_all add: nth_append)
    moreover have "\<not> isSpace dq" by (simp add: isSpace_def)
    ultimately show ?thesis using w1(2) by (auto simp: list_all_iff)
  qed
  finally show False using s3 by simp
qed

lemma untouched_edgeMatch:
  "untouched edgeMatch t = list_all (\<lambda>s. edgeMatch s = None) (suffixes t)"
proof -
  have "(case edgeMatch s of None \<Rightarrow> True | Some (n, repl) \<Rightarrow> n \<le> length s \<and> repl = take n s)
          = (edgeMatch s = None)" for s
  proof (cases "edgeMatch s")
    case None
    then show ?thesis by simp
  next
    case (Some a)
    obtain n repl where a: "a = (n, repl)" by (cases a)
    with Some edgeMatch_changes [of s n repl] show ?thesis by simp
  qed
  then show ?thesis by (simp add: untouched_def)
qed

lemma trim_noop:
  assumes "s \<noteq> []" and "\<not> isSpace (hd s)" and "\<not> isSpace (last s)"
  shows "trim s = s"
proof -
  from assms(1,2) have d: "dropWhile isSpace s = s" by (cases s) simp_all
  from assms(1,3) have "dropWhile isSpace (rev s) = rev s"
    by (cases "rev s") (simp_all add: hd_rev [symmetric])
  with d show ?thesis by (simp add: trim_def)
qed

lemma quoteLabel_unchanged_iff:
  "(quoteLabel L = ''['' @ L @ '']'')
     = ((startsWith (trim L) [dq] \<and> endsWith (trim L) [dq])
        \<or> \<not> (\<exists>c \<in> set (trim L). c \<in> set ''()/:'' \<or> c = dq))"
proof (cases "(startsWith (trim L) [dq] \<and> endsWith (trim L) [dq])
        \<or> \<not> (\<exists>c \<in> set (trim L). c \<in> set ''()/:'' \<or> c = dq)")
  case True
  then show ?thesis by (auto simp: quoteLabel_def Let_def)
next
  case False
  then have q: "quoteLabel L = ''['' @ [dq] @ replaceChar dq [] (trim L) @ [dq] @ '']''"
    by (auto simp: quoteLabel_def Let_def)
  have "quoteLabel L \<noteq> ''['' @ L @ '']''"
  proof
    assume "quoteLabel L = ''['' @ L @ '']''"
    with q have L: "L = dq # replaceChar dq [] (trim L) @ [dq]" by simp
    define X where "X = replaceChar dq [] (trim L)"
    from L have L': "L = dq # X @ [dq]" by (simp add: X_def)
    have "trim (dq # X @ [dq]) = dq # X @ [dq]"
      by (rule trim_noop) (simp_all add: isSpace_def)
    with L' have "trim L = dq # X @ [dq]" by simp
    then have "startsWith (trim L) [dq] \<and> endsWith (trim L) [dq]"
      by (simp add: startsWith_def endsWith_def)
    with False show False by blast
  qed
  with False show ?thesis by blast
qed

lemma replaceChar_length:
  "length (replaceChar c repl s) = length s + (length repl - 1) * length (filter (\<lambda>x. x = c) s)"
    if "repl \<noteq> []"
  using that by (induction s) (simp_all add: replaceChar_concat Suc_leI)

lemma replaceChar_same_iff:
  assumes "1 < length repl"
  shows "(replaceChar c repl s = s) = (c \<notin> set s)"
proof
  assume eq: "replaceChar c repl s = s"
  from assms have "repl \<noteq> []" by auto
  from replaceChar_length [OF this, of c s] eq
  have "(length repl - 1) * length (filter (\<lambda>x. x = c) s) = 0" by simp
  with assms have "filter (\<lambda>x. x = c) s = []" by simp
  then show "c \<notin> set s" by (auto simp: filter_empty_conv)
next
  assume "c \<notin> set s"
  then show "replaceChar c repl s = s"
    by (induction s) (auto simp: replaceChar_concat)
qed

lemma replaceChar_length_ge: "repl \<noteq> [] \<Longrightarrow> length s \<le> length (replaceChar c repl s)"
  by (simp add: replaceChar_length)

lemma escapePipeLabel_unchanged_iff:
  "(escapePipeLabel L = ''|'' @ L @ ''|'') = (CHR ''('' \<notin> set L \<and> CHR '')'' \<notin> set L)"
proof
  assume "escapePipeLabel L = ''|'' @ L @ ''|''"
  then have eq: "replaceChar (CHR '')'') ''#41;'' (replaceChar (CHR ''('') ''#40;'' L) = L"
    by (simp add: escapePipeLabel_def)
  define L' where "L' = replaceChar (CHR ''('') ''#40;'' L"
  have "length L \<le> length L'" unfolding L'_def by (rule replaceChar_length_ge) simp
  moreover have "length L' \<le> length (replaceChar (CHR '')'') ''#41;'' L')"
    by (rule replaceChar_length_ge) simp
  moreover from eq have "length (replaceChar (CHR '')'') ''#41;'' L') = length L"
    by (simp add: L'_def)
  ultimately have len: "length L' = length L" by simp
  have "CHR ''('' \<notin> set L"
  proof -
    from replaceChar_length [of "''#40;''" "CHR ''(''" L] len
    have "filter (\<lambda>x. x = CHR ''('') L = []" by (simp add: L'_def)
    then show ?thesis by (auto simp: filter_empty_conv)
  qed
  then have "L' = L" unfolding L'_def by (simp add: replaceChar_same_iff)
  with eq have "replaceChar (CHR '')'') ''#41;'' L = L" by (simp add: L'_def)
  then have "CHR '')'' \<notin> set L" by (simp add: replaceChar_same_iff)
  with \<open>CHR ''('' \<notin> set L\<close> show "CHR ''('' \<notin> set L \<and> CHR '')'' \<notin> set L" by simp
next
  assume "CHR ''('' \<notin> set L \<and> CHR '')'' \<notin> set L"
  then have "replaceChar (CHR ''('') ''#40;'' L = L"
    and "replaceChar (CHR '')'') ''#41;'' L = L"
    by (simp_all add: replaceChar_same_iff)
  then show "escapePipeLabel L = ''|'' @ L @ ''|''"
    by (simp add: escapePipeLabel_def)
qed

lemma pipeMatch_label:
  assumes "CHR ''|'' \<notin> set L"
  shows "pipeMatch (''|'' @ L @ ''|'' @ post) = Some (length L + 2, escapePipeLabel L)"
proof -
  let ?P = "\<lambda>c. c \<noteq> CHR ''|''"
  have tw: "takeWhile ?P (L @ ''|'' @ post) = L"
    using assms by (subst takeWhile_append2) auto
  have dw: "dropWhile ?P (L @ ''|'' @ post) = ''|'' @ post"
    using assms by (subst dropWhile_append2) auto
  have len: "0 \<le> length (takeWhile ?P (L @ ''|'' @ post))" by simp
  obtain rest where g: "greedy ?P 0 (L @ ''|'' @ post) = (L, ''|'' @ post) # rest"
    using greedy_head [OF len] unfolding tw dw by blast
  have g': "greedy ?P 0 (L @ CHR ''|'' # post) = (L, CHR ''|'' # post) # rest"
    using g by simp
  have l1': "lit ''|'' (CHR ''|'' # L @ CHR ''|'' # post) = [(''|'', L @ CHR ''|'' # post)]"
    using lit_append [of "''|''" "L @ ''|'' @ post"] by simp
  have l2': "lit ''|'' (CHR ''|'' # post) = [(''|'', post)]"
    using lit_append [of "''|''" post] by simp
  show ?thesis
    unfolding pipeMatch_def by (simp add: l1' g' l2' first_of_def)
qed

lemma pipeMatch_shape:
  assumes "pipeMatch s = Some (n, repl)"
  shows "\<exists>L post. s = ''|'' @ L @ ''|'' @ post \<and> CHR ''|'' \<notin> set L"
proof -
  have "(n, repl) \<in> set
     [(length a + length label + length b, escapePipeLabel label).
        (a, r1) \<leftarrow> lit ''|'' s, (label, r2) \<leftarrow> greedy (\<lambda>c. c \<noteq> CHR ''|'') 0 r1,
        (b, r3) \<leftarrow> lit ''|'' r2]"
    using assms unfolding pipeMatch_def by (rule first_of_Some)
  then obtain a r1 label r2 b r3 where
    "(a, r1) \<in> set (lit ''|'' s)" "(label, r2) \<in> set (greedy (\<lambda>c. c \<noteq> CHR ''|'') 0 r1)"
    "(b, r3) \<in> set (lit ''|'' r2)"
    by (simp only: in_bind in_map_pair prod.inject) (elim exE conjE, rule that)
  note m = this
  from m(1) have s: "s = ''|'' @ r1" by (simp add: lit_set)
  from greedy_set [OF m(2)] have r1: "r1 = label @ r2"
    and a: "list_all (\<lambda>c. c \<noteq> CHR ''|'') label" by simp_all
  from m(3) have r2: "r2 = ''|'' @ r3" by (simp add: lit_set)
  have "s = ''|'' @ label @ ''|'' @ r3" unfolding s r1 r2 by simp
  moreover have "CHR ''|'' \<notin> set label" using a by (auto simp: list_all_iff)
  ultimately show ?thesis by blast
qed

lemma untouched_iff:
  "untouched m t = (\<forall>s. suffix s t \<longrightarrow>
      (case m s of None \<Rightarrow> True | Some (n, repl) \<Rightarrow> n \<le> length s \<and> repl = take n s))"
  by (auto simp: untouched_def list_all_iff in_set_suffixes)

lemma untouched_labelMatch:
  "untouched labelMatch t =
     (\<forall>L post. suffix (''['' @ L @ '']'' @ post) t \<and> L \<noteq> [] \<and> CHR '']'' \<notin> set L \<longrightarrow>
        (startsWith (trim L) [dq] \<and> endsWith (trim L) [dq])
        \<or> \<not> (\<exists>c \<in> set (trim L). c \<in> set ''()/:'' \<or> c = dq))"
proof
  assume u: "untouched labelMatch t"
  show "\<forall>L post. suffix (''['' @ L @ '']'' @ post) t \<and> L \<noteq> [] \<and> CHR '']'' \<notin> set L \<longrightarrow>
        (startsWith (trim L) [dq] \<and> endsWith (trim L) [dq])
        \<or> \<not> (\<exists>c \<in> set (trim L). c \<in> set ''()/:'' \<or> c = dq)"
  proof (intro allI impI, elim conjE)
    fix L post
    assume s: "suffix (''['' @ L @ '']'' @ post) t" and L: "L \<noteq> []" "CHR '']'' \<notin> set L"
    from labelMatch_label [OF L, of post] u s
    have "quoteLabel L = take (length L + 2) (''['' @ L @ '']'' @ post)"
      unfolding untouched_iff by force
    then have "quoteLabel L = ''['' @ L @ '']''" by simp
    then show "(startsWith (trim L) [dq] \<and> endsWith (trim L) [dq])
        \<or> \<not> (\<exists>c \<in> set (trim L). c \<in> set ''()/:'' \<or> c = dq)"
      using quoteLabel_unchanged_iff [of L] by blast
  qed
next
  assume h: "\<forall>L post. suffix (''['' @ L @ '']'' @ post) t \<and> L \<noteq> [] \<and> CHR '']'' \<notin> set L \<longrightarrow>
        (startsWith (trim L) [dq] \<and> endsWith (trim L) [dq])
        \<or> \<not> (\<exists>c \<in> set (trim L). c \<in> set ''()/:'' \<or> c = dq)"
  show "untouched labelMatch t"
    unfolding untouched_iff
  proof (intro allI impI)
    fix s assume s: "suffix s t"
    show "case labelMatch s of None \<Rightarrow> True | Some (n, repl) \<Rightarrow> n \<le> length s \<and> repl = take n s"
    proof (cases "labelMatch s")
      case None
      then show ?thesis by simp
    next
      case (Some a)
      obtain n repl where a: "a = (n, repl)" by (cases a)
      from labelMatch_shape [of s n repl] Some a obtain L post where
        sh: "s = ''['' @ L @ '']'' @ post" and L: "L \<noteq> []" "CHR '']'' \<notin> set L"
        by auto
      from labelMatch_label [OF L, of post] Some a sh
      have n: "n = length L + 2" and r: "repl = quoteLabel L" by simp_all
      from h s sh L have "(startsWith (trim L) [dq] \<and> endsWith (trim L) [dq])
        \<or> \<not> (\<exists>c \<in> set (trim L). c \<in> set ''()/:'' \<or> c = dq)" by blast
      then have "quoteLabel L = ''['' @ L @ '']''"
        using quoteLabel_unchanged_iff [of L] by blast
      with Some a n r sh show ?thesis by simp
    qed
  qed
qed

lemma untouched_pipeMatch:
  "untouched pipeMatch t =
     (\<forall>L post. suffix (''|'' @ L @ ''|'' @ post) t \<and> CHR ''|'' \<notin> set L \<longrightarrow>
        CHR ''('' \<notin> set L \<and> CHR '')'' \<notin> set L)"
proof
  assume u: "untouched pipeMatch t"
  show "\<forall>L post. suffix (''|'' @ L @ ''|'' @ post) t \<and> CHR ''|'' \<notin> set L \<longrightarrow>
        CHR ''('' \<notin> set L \<and> CHR '')'' \<notin> set L"
  proof (intro allI impI, elim conjE)
    fix L post
    assume s: "suffix (''|'' @ L @ ''|'' @ post) t" and L: "CHR ''|'' \<notin> set L"
    from pipeMatch_label [OF L, of post] u s
    have "escapePipeLabel L = take (length L + 2) (''|'' @ L @ ''|'' @ post)"
      unfolding untouched_iff by force
    then have "escapePipeLabel L = ''|'' @ L @ ''|''" by simp
    then show "CHR ''('' \<notin> set L \<and> CHR '')'' \<notin> set L"
      using escapePipeLabel_unchanged_iff [of L] by blast
  qed
next
  assume h: "\<forall>L post. suffix (''|'' @ L @ ''|'' @ post) t \<and> CHR ''|'' \<notin> set L \<longrightarrow>
        CHR ''('' \<notin> set L \<and> CHR '')'' \<notin> set L"
  show "untouched pipeMatch t"
    unfolding untouched_iff
  proof (intro allI impI)
    fix s assume s: "suffix s t"
    show "case pipeMatch s of None \<Rightarrow> True | Some (n, repl) \<Rightarrow> n \<le> length s \<and> repl = take n s"
    proof (cases "pipeMatch s")
      case None
      then show ?thesis by simp
    next
      case (Some a)
      obtain n repl where a: "a = (n, repl)" by (cases a)
      from pipeMatch_shape [of s n repl] Some a obtain L post where
        sh: "s = ''|'' @ L @ ''|'' @ post" and L: "CHR ''|'' \<notin> set L"
        by auto
      from pipeMatch_label [OF L, of post] Some a sh
      have n: "n = length L + 2" and r: "repl = escapePipeLabel L" by simp_all
      from h s sh L have "CHR ''('' \<notin> set L \<and> CHR '')'' \<notin> set L" by blast
      then have "escapePipeLabel L = ''|'' @ L @ ''|''"
        using escapePipeLabel_unchanged_iff [of L] by blast
      with Some a n r sh show ?thesis by simp
    qed
  qed
qed



text \<open>Without the condition the sanitizer is not idempotent.\<close>

lemma sanitize_not_idempotent_in_general:
  "sanitizeMermaid ''a;;'' = ''a;'' \<and> sanitizeMermaid (sanitizeMermaid ''a;;'') = ''a''"
  by code_simp

subsection \<open>Segmentation\<close>

lemma fencedMatch_shape:
  assumes "fencedMatch s = Some (n, body)"
  shows "\<exists>w r. s = fence @ ''mermaid'' @ w @ [nl] @ body @ fence @ r \<and> list_all isSpace w
            \<and> n = length (fence @ ''mermaid'' @ w @ [nl] @ body @ fence)"
proof -
  have "(n, body) \<in> set
     [(length a + length w + length b + length body + length c, body).
        (a, r1) \<leftarrow> lit (fence @ ''mermaid'') s, (w, r2) \<leftarrow> greedy isSpace 0 r1,
        (b, r3) \<leftarrow> lit [nl] r2, (body, r4) \<leftarrow> lazy (\<lambda>c. True) 0 r3,
        (c, r5) \<leftarrow> lit fence r4]"
    using assms unfolding fencedMatch_def by (rule first_of_Some)
  then obtain a r1 w r2 b r3 r4 c r5 where
    "(a, r1) \<in> set (lit (fence @ ''mermaid'') s)" "(w, r2) \<in> set (greedy isSpace 0 r1)"
    "(b, r3) \<in> set (lit [nl] r2)" "(body, r4) \<in> set (lazy (\<lambda>c. True) 0 r3)"
    "(c, r5) \<in> set (lit fence r4)" "n = length a + length w + length b + length body + length c"
    by (simp only: in_bind in_map_pair prod.inject) (elim exE conjE, hypsubst, rule that)
  note m = this
  from m(1) have a: "a = fence @ ''mermaid''" and s: "s = a @ r1" by (simp_all add: lit_set)
  from m(2) have r1: "r1 = w @ r2" and w: "list_all isSpace w" by (simp_all add: greedy_set)
  from m(3) have b: "b = [nl]" and r2: "r2 = b @ r3" by (simp_all add: lit_set)
  from m(4) have r3: "r3 = body @ r4" by (simp add: lazy_set)
  from m(5) have c: "c = fence" and r4: "r4 = c @ r5" by (simp_all add: lit_set)
  have s': "s = fence @ ''mermaid'' @ w @ [nl] @ body @ fence @ r5"
    unfolding s r1 r2 r3 r4 a b c by simp
  have n': "n = length (fence @ ''mermaid'' @ w @ [nl] @ body @ fence)"
    unfolding m(6) a b c by simp
  show ?thesis
    by (intro exI [of _ w] exI [of _ r5] conjI) (rule s' w n')+
qed

lemma fencedMatch_bounds:
  assumes "fencedMatch s = Some (n, body)"
  shows "0 < n \<and> n \<le> length s"
proof -
  from fencedMatch_shape [OF assms] obtain w r where
    s: "s = fence @ ''mermaid'' @ w @ [nl] @ body @ fence @ r" and
    n: "n = length (fence @ ''mermaid'' @ w @ [nl] @ body @ fence)"
    by (elim exE conjE)
  have "length s = n + length r" unfolding s n by simp
  moreover have "0 < n" unfolding n by simp
  ultimately show ?thesis by simp
qed

lemma fencedMatch_Nil: "fencedMatch [] = None"
proof (cases "fencedMatch []")
  case None
  then show ?thesis .
next
  case (Some a)
  obtain n body where "a = (n, body)" by (cases a)
  with Some fencedMatch_bounds [of "[]" n body] show ?thesis by auto
qed


lemma fencedLoop_refines:
  "t = pre @ gap @ s \<Longrightarrow>
   finishFenced t (foldl (fencedStep t) (acc, length pre)
       (matchAll fencedMatch (length pre + length gap) s))
     = acc @ fencedSegs gap s"
proof (induction gap s arbitrary: pre acc rule: fencedSegs.induct)
  case (1 gap)
  then show ?case by (simp add: fencedMatch_Nil finishFenced_def)
next
  case (2 gap c r)
  show ?case
  proof (cases "fencedMatch (c # r)")
    case None
    have "t = pre @ (gap @ [c]) @ r" using "2.prems" by simp
    from "2.IH"(1) [OF None this, of acc] None show ?thesis by simp
  next
    case (Some a)
    obtain n body where a: "a = (n, body)" by (cases a)
    from fencedMatch_bounds [of "c # r" n body] Some a
    have n: "0 < n" "n \<le> length (c # r)" by auto
    define acc' where "acc' = (if gap \<noteq> [] then acc @ [\<lparr>seg_type = MD, seg_text = gap\<rparr>] else acc)
                  @ [\<lparr>seg_type = MERMAID, seg_text = trim body\<rparr>]"
    define k where "k = length pre + length gap + n"
    have sl: "slice t (length pre) (length pre + length gap) = gap"
      using "2.prems" by (simp add: slice_def)
    have step: "fencedStep t (acc, length pre) (length pre + length gap, n, body) = (acc', k)"
      by (simp add: sl acc'_def k_def)
    have t': "t = (pre @ gap @ take n (c # r)) @ [] @ drop n (c # r)"
      using "2.prems" by (simp del: take_Suc_Cons drop_Suc_Cons)
    have len: "length (pre @ gap @ take n (c # r)) = k"
      using n by (simp del: take_Suc_Cons add: k_def)
    have "finishFenced t (foldl (fencedStep t) (acc', length (pre @ gap @ take n (c # r)))
             (matchAll fencedMatch (length (pre @ gap @ take n (c # r)) + length ([]::string))
                (drop n (c # r))))
          = acc' @ fencedSegs [] (drop n (c # r))"
      using n by (intro "2.IH"(3) [OF Some a [symmetric] _ t']) simp
    then have ih: "finishFenced t (foldl (fencedStep t) (acc', k)
             (matchAll fencedMatch k (drop n (c # r))))
          = acc' @ fencedSegs [] (drop n (c # r))"
      unfolding len by simp
    have "matchAll fencedMatch (length pre + length gap) (c # r)
            = (length pre + length gap, n, body) # matchAll fencedMatch k (drop n (c # r))"
      using Some a n by (simp add: k_def)
    then have "finishFenced t (foldl (fencedStep t) (acc, length pre)
                 (matchAll fencedMatch (length pre + length gap) (c # r)))
               = acc' @ fencedSegs [] (drop n (c # r))"
      using step ih by (simp del: fencedStep.simps)
    moreover have "acc @ fencedSegs gap (c # r) = acc' @ fencedSegs [] (drop n (c # r))"
      using Some a n by (simp add: acc'_def)
    ultimately show ?thesis by simp
  qed
qed


lemma fencedStep_fst_nonempty: "fst (fencedStep t st mt) \<noteq> []"
  by (cases st; cases mt) auto

lemma foldl_fencedStep_empty:
  "fst (foldl (fencedStep t) st ms) = [] \<longleftrightarrow> fst st = [] \<and> ms = []"
proof (induction ms arbitrary: st)
  case Nil
  show ?case by simp
next
  case (Cons mt ms)
  show ?case using fencedStep_fst_nonempty [of t st mt] by (simp add: Cons.IH)
qed

lemma parseSegments_fenced:
  assumes "matchAll fencedMatch 0 t \<noteq> []"
  shows "parseSegments t = finishFenced t (fencedLoop t)"
    and "parseSegments t = fencedSegs [] t"
proof -
  obtain segments lastEnd where fl: "fencedLoop t = (segments, lastEnd)"
    by (cases "fencedLoop t")
  have "fst (fencedLoop t) \<noteq> []"
    using assms by (simp add: fencedLoop_def foldl_fencedStep_empty)
  with fl have "segments \<noteq> []" by simp
  with fl show a: "parseSegments t = finishFenced t (fencedLoop t)"
    by (simp add: parseSegments_def finishFenced_def)
  have "finishFenced t (fencedLoop t) = [] @ fencedSegs [] t"
    using fencedLoop_refines [of t "[]" "[]" t "[]"] by (simp add: fencedLoop_def)
  with a show "parseSegments t = fencedSegs [] t" by simp
qed

lemma fencedSegs_diagrams:
  "map seg_text (filter (\<lambda>s. seg_type s = MERMAID) (fencedSegs gap s))
     = map (\<lambda>(i, n, body). trim body) (matchAll fencedMatch i s)"
proof (induction gap s arbitrary: i rule: fencedSegs.induct)
  case (1 gap)
  show ?case by (simp add: fencedMatch_Nil)
next
  case (2 gap c r)
  show ?case
  proof (cases "fencedMatch (c # r)")
    case None
    with "2.IH"(1) show ?thesis by simp
  next
    case (Some a)
    obtain n body where a: "a = (n, body)" by (cases a)
    show ?thesis
    proof (cases "n = 0")
      case True
      with Some a "2.IH"(2) [OF Some a [symmetric] True] show ?thesis by simp
    next
      case False
      with Some a "2.IH"(3) [OF Some a [symmetric] False] show ?thesis by simp
    qed
  qed
qed

lemma fencedSegs_concat:
  "concat (map seg_text (fencedSegs gap s)) = gap @ replaceFenced trim s"
proof (induction gap s rule: fencedSegs.induct)
  case (1 gap)
  show ?case by (simp add: fencedMatch_Nil replaceFenced_def)
next
  case (2 gap c r)
  show ?case
  proof (cases "fencedMatch (c # r)")
    case None
    with "2.IH"(1) show ?thesis by (simp add: replaceFenced_def)
  next
    case (Some a)
    obtain n body where a: "a = (n, body)" by (cases a)
    show ?thesis
    proof (cases "n = 0")
      case True
      with Some a "2.IH"(2) [OF Some a [symmetric] True] show ?thesis
        by (simp add: replaceFenced_def)
    next
      case False
      with Some a "2.IH"(3) [OF Some a [symmetric] False] show ?thesis
        by (simp add: replaceFenced_def)
    qed
  qed
qed

lemma fencedSegs_prose:
  "concat (map seg_text (filter (\<lambda>s. seg_type s = MD) (fencedSegs gap s)))
     = gap @ replaceFenced (\<lambda>body. []) s"
proof (induction gap s rule: fencedSegs.induct)
  case (1 gap)
  show ?case by (simp add: fencedMatch_Nil replaceFenced_def)
next
  case (2 gap c r)
  show ?case
  proof (cases "fencedMatch (c # r)")
    case None
    with "2.IH"(1) show ?thesis by (simp add: replaceFenced_def)
  next
    case (Some a)
    obtain n body where a: "a = (n, body)" by (cases a)
    show ?thesis
    proof (cases "n = 0")
      case True
      with Some a "2.IH"(2) [OF Some a [symmetric] True] show ?thesis
        by (simp add: replaceFenced_def)
    next
      case False
      with Some a "2.IH"(3) [OF Some a [symmetric] False] show ?thesis
        by (simp add: replaceFenced_def)
    qed
  qed
qed

lemma nonspace_dropWhile:
  "filter (\<lambda>c. \<not> isSpace c) (dropWhile isSpace s) = filter (\<lambda>c. \<not> isSpace c) s"
  by (induction s) simp_all

lemma nonspace_trim: "filter (\<lambda>c. \<not> isSpace c) (trim s) = filter (\<lambda>c. \<not> isSpace c) s"
proof -
  have "filter (\<lambda>c. \<not> isSpace c) (trim s)
          = rev (filter (\<lambda>c. \<not> isSpace c) (dropWhile isSpace (rev (dropWhile isSpace s))))"
    by (simp add: trim_def rev_filter)
  also have "\<dots> = rev (filter (\<lambda>c. \<not> isSpace c) (rev (dropWhile isSpace s)))"
    by (simp only: nonspace_dropWhile)
  also have "\<dots> = filter (\<lambda>c. \<not> isSpace c) (dropWhile isSpace s)"
    by (simp add: rev_filter)
  finally show ?thesis by (simp only: nonspace_dropWhile)
qed

lemma blank_nonspace: "trim l = [] \<Longrightarrow> filter (\<lambda>c. \<not> isSpace c) l = []"
  using nonspace_trim [of l] by simp

lemma split_nl_nonempty: "split_nl s \<noteq> []"
  by (induction s) (auto split: list.splits)

lemma join_nl_Cons: "ls \<noteq> [] \<Longrightarrow> join_nl (l # ls) = l @ nl # join_nl ls"
  by (cases ls) simp_all

lemma join_nl_push: "join_nl ((c # l) # ls) = c # join_nl (l # ls)"
  by (cases ls) simp_all

lemma join_split: "join_nl (split_nl s) = s"
proof (induction s)
  case Nil
  show ?case by simp
next
  case (Cons c s)
  show ?case
  proof (cases "c = nl")
    case True
    with Cons show ?thesis by (simp add: join_nl_Cons split_nl_nonempty)
  next
    case False
    obtain l ls where sp: "split_nl s = l # ls"
      using split_nl_nonempty [of s] by (cases "split_nl s") auto
    with False Cons show ?thesis by (simp add: join_nl_push)
  qed
qed

lemma nonspace_join:
  "filter (\<lambda>c. \<not> isSpace c) (join_nl ls) = concat (map (filter (\<lambda>c. \<not> isSpace c)) ls)"
  by (induction ls rule: join_nl.induct) (simp_all add: isSpace_def)

lemma lineLoop_rest: "lineLoop ls (False, m, r) = (False, m, r @ ls)"
  by (induction ls arbitrary: r) simp_all

lemma lineLoop_partition:
  "\<exists>b m2 r2. lineLoop ls (True, m, []) = (b, m @ m2, r2) \<and> m2 @ r2 = ls"
proof (induction ls arbitrary: m)
  case Nil
  show ?case by (intro exI [of _ True] exI [of _ "[]"]) simp
next
  case (Cons l ls)
  show ?case
  proof (cases "diagramLine l")
    case True
    from Cons [of "m @ [l]"] obtain b m2 r2 where
      "lineLoop ls (True, m @ [l], []) = (b, (m @ [l]) @ m2, r2)" "m2 @ r2 = ls" by blast
    with True show ?thesis by (intro exI [of _ b] exI [of _ "l # m2"] exI [of _ r2]) simp
  next
    case False
    then show ?thesis
      by (intro exI [of _ False] exI [of _ "[]"] exI [of _ "l # ls"]) (simp add: lineLoop_rest)
  qed
qed

lemma popBlank_blanks:
  "\<exists>bl. ls = popBlank ls @ bl \<and> (\<forall>l \<in> set bl. trim l = [])"
proof (induction ls rule: popBlank.induct)
  case (1 ls)
  show ?case
  proof (cases "ls \<noteq> [] \<and> trim (last ls) = []")
    case True
    from "1.IH" [OF True] obtain bl where
      bl: "butlast ls = popBlank (butlast ls) @ bl" "\<forall>l \<in> set bl. trim l = []" by blast
    have pb: "popBlank ls = popBlank (butlast ls)" using True by (subst popBlank.simps) simp
    have "ls = butlast ls @ [last ls]" using True by simp
    also have "\<dots> = (popBlank (butlast ls) @ bl) @ [last ls]" using bl(1) by simp
    finally have "ls = popBlank ls @ (bl @ [last ls])" unfolding pb by simp
    with bl(2) True show ?thesis
      by (intro exI [of _ "bl @ [last ls]"]) simp
  next
    case False
    then have "popBlank ls = ls" by (subst popBlank.simps) auto
    then show ?thesis by (intro exI [of _ "[]"]) simp
  qed
qed

lemma search_bounds: "search P prev k s = Some i \<Longrightarrow> k \<le> i \<and> i \<le> k + length s"
proof (induction s arbitrary: prev k)
  case Nil
  then show ?case by (simp split: if_splits)
next
  case (Cons c s)
  show ?case
  proof (cases "P prev (c # s)")
    case True
    with Cons.prems show ?thesis by simp
  next
    case False
    with Cons.prems have "search P (Some c) (Suc k) s = Some i" by simp
    from Cons.IH [OF this] show ?thesis by simp
  qed
qed

lemma extractRawMermaid_coverage:
  assumes "extractRawMermaid t = Some raw"
  shows "filter (\<lambda>c. \<not> isSpace c) (rawBefore raw @ rawMermaid raw @ rawAfter raw)
           = filter (\<lambda>c. \<not> isSpace c) t"
proof -
  let ?ns = "filter (\<lambda>c. \<not> isSpace c)"
  from assms obtain i where i: "search keywordAt None 0 t = Some i"
    by (auto simp: extractRawMermaid_def split: option.splits)
  obtain b ml rl where ll: "lineLoop (split_nl (drop i t)) (True, [], []) = (b, ml, rl)"
    by (cases "lineLoop (split_nl (drop i t)) (True, [], [])")
  from assms i ll have raw: "raw = \<lparr>rawBefore = trim (slice t 0 i),
      rawMermaid = trim (join_nl (popBlank ml)), rawAfter = trim (join_nl rl)\<rparr>"
    by (simp add: extractRawMermaid_def Let_def)
  from lineLoop_partition [of "split_nl (drop i t)" "[]"] ll
  have part: "ml @ rl = split_nl (drop i t)" by auto
  obtain bl where bl: "ml = popBlank ml @ bl" "\<forall>l \<in> set bl. trim l = []"
    using popBlank_blanks by blast
  have "concat (map ?ns bl) = []" using bl(2) by (simp add: blank_nonspace)
  then have "concat (map ?ns (popBlank ml)) = concat (map ?ns ml)"
    using arg_cong [OF bl(1), of "\<lambda>x. concat (map ?ns x)"] by simp
  then have "?ns (join_nl (popBlank ml)) @ ?ns (join_nl rl) = concat (map ?ns (ml @ rl))"
    by (simp add: nonspace_join)
  also have "\<dots> = ?ns (drop i t)"
    unfolding part by (simp add: nonspace_join [symmetric] join_split)
  finally have rest: "?ns (join_nl (popBlank ml)) @ ?ns (join_nl rl) = ?ns (drop i t)" .
  have "?ns (rawBefore raw @ rawMermaid raw @ rawAfter raw)
          = ?ns (take i t) @ ?ns (join_nl (popBlank ml)) @ ?ns (join_nl rl)"
    by (simp add: raw nonspace_trim slice_def)
  also have "\<dots> = ?ns (take i t) @ ?ns (drop i t)" using rest by simp
  also have "\<dots> = ?ns (take i t @ drop i t)" by (simp only: filter_append)
  finally show ?thesis by (simp only: append_take_drop_id)
qed

lemma parseSegments_unfenced:
  assumes "matchAll fencedMatch 0 t = []"
  shows "filter (\<lambda>c. \<not> isSpace c) (concat (map seg_text (parseSegments t)))
           = filter (\<lambda>c. \<not> isSpace c) t"
proof (cases "extractRawMermaid t")
  case None
  with assms show ?thesis by (simp add: parseSegments_def fencedLoop_def)
next
  case (Some raw)
  have "concat (map seg_text (parseSegments t)) = rawBefore raw @ rawMermaid raw @ rawAfter raw"
    using assms Some by (simp add: parseSegments_def fencedLoop_def)
  with extractRawMermaid_coverage [OF Some] show ?thesis by simp
qed

lemma dropWhile_rev_decomp:
  "\<exists>b. s = rev (dropWhile P (rev s)) @ b \<and> list_all P b"
proof -
  have "s = rev (takeWhile P (rev s) @ dropWhile P (rev s))"
    by (simp only: takeWhile_dropWhile_id rev_rev_ident)
  also have "\<dots> = rev (dropWhile P (rev s)) @ rev (takeWhile P (rev s))"
    by (rule rev_append)
  finally have "s = rev (dropWhile P (rev s)) @ rev (takeWhile P (rev s))" .
  moreover have "list_all P (rev (takeWhile P (rev s)))"
    by (auto simp: list_all_iff dest: set_takeWhileD)
  ultimately show ?thesis by blast
qed

lemma trim_decomp:
  "\<exists>a b. s = a @ trim s @ b \<and> list_all isSpace a \<and> list_all isSpace b"
proof -
  obtain b where b: "dropWhile isSpace s = trim s @ b" "list_all isSpace b"
    using dropWhile_rev_decomp [of "dropWhile isSpace s" isSpace] unfolding trim_def by blast
  have "s = takeWhile isSpace s @ dropWhile isSpace s" by simp
  then have "s = takeWhile isSpace s @ trim s @ b" unfolding b(1) .
  moreover have "list_all isSpace (takeWhile isSpace s)"
    by (auto simp: list_all_iff dest: set_takeWhileD)
  ultimately show ?thesis using b(2) by blast
qed

lemma blank_all_space: "trim l = [] \<Longrightarrow> list_all isSpace l"
  using trim_decomp [of l] by auto

lemma piecesOf_prepend: "list_all isSpace w \<Longrightarrow> piecesOf ps t \<Longrightarrow> piecesOf ps (w @ t)"
proof (cases ps)
  case Nil
  assume "list_all isSpace w" "piecesOf ps t"
  with Nil show ?thesis by simp
next
  case (Cons p ps')
  assume w: "list_all isSpace w" and "piecesOf ps t"
  with Cons obtain w' rest where "t = w' @ p @ rest" "list_all isSpace w'" "piecesOf ps' rest"
    by auto
  with w have "w @ t = (w @ w') @ p @ rest \<and> list_all isSpace (w @ w') \<and> piecesOf ps' rest"
    by simp
  with Cons show ?thesis by (simp only: piecesOf.simps) blast
qed

lemma piecesOf_Cons: "list_all isSpace w \<Longrightarrow> piecesOf ps rest \<Longrightarrow> piecesOf (p # ps) (w @ p @ rest)"
  by (simp only: piecesOf.simps) blast

lemma piecesOf_ConsE:
  assumes "piecesOf (p # ps) t"
  obtains w rest where "t = w @ p @ rest" "list_all isSpace w" "piecesOf ps rest"
  using assms by (simp only: piecesOf.simps) blast

lemma piecesOf_drop_empty: "piecesOf ([] # ps) t \<Longrightarrow> piecesOf ps t"
  using piecesOf_prepend by auto

lemma join_nl_append:
  "join_nl (xs @ ys) = join_nl xs @ (if xs = [] \<or> ys = [] then [] else [nl]) @ join_nl ys"
proof (induction xs rule: join_nl.induct)
  case 1
  show ?case by simp
next
  case (2 l)
  show ?case by (cases ys) simp_all
next
  case (3 l m ls)
  then show ?case by simp
qed

lemma join_nl_blank: "(\<forall>l \<in> set bl. list_all isSpace l) \<Longrightarrow> list_all isSpace (join_nl bl)"
  by (induction bl rule: join_nl.induct) (simp_all add: isSpace_def)

lemma extractRawMermaid_pieces:
  assumes "extractRawMermaid t = Some raw"
  shows "piecesOf [rawBefore raw, rawMermaid raw, rawAfter raw] t"
proof -
  from assms obtain i where i: "search keywordAt None 0 t = Some i"
    by (auto simp: extractRawMermaid_def split: option.splits)
  obtain b ml rl where ll: "lineLoop (split_nl (drop i t)) (True, [], []) = (b, ml, rl)"
    by (cases "lineLoop (split_nl (drop i t)) (True, [], [])")
  from assms i ll have raw: "raw = \<lparr>rawBefore = trim (slice t 0 i),
      rawMermaid = trim (join_nl (popBlank ml)), rawAfter = trim (join_nl rl)\<rparr>"
    by (simp add: extractRawMermaid_def Let_def)
  from lineLoop_partition [of "split_nl (drop i t)" "[]"] ll
  have part: "ml @ rl = split_nl (drop i t)" by auto
  obtain bl where bl: "ml = popBlank ml @ bl" "\<forall>l \<in> set bl. trim l = []"
    using popBlank_blanks by blast
  define sep1 where "sep1 = (if popBlank ml = [] \<or> bl @ rl = [] then [] else [nl])"
  define sep2 where "sep2 = (if bl = [] \<or> rl = [] then [] else [nl])"
  define gap where "gap = sep1 @ join_nl bl @ sep2"
  have "join_nl (ml @ rl) = join_nl (popBlank ml @ (bl @ rl))"
    using arg_cong [OF bl(1), of "\<lambda>x. join_nl (x @ rl)"] by simp
  also have "\<dots> = join_nl (popBlank ml) @ sep1 @ join_nl (bl @ rl)"
    unfolding sep1_def by (rule join_nl_append)
  also have "join_nl (bl @ rl) = join_nl bl @ sep2 @ join_nl rl"
    unfolding sep2_def by (rule join_nl_append)
  finally have j: "join_nl (ml @ rl) = join_nl (popBlank ml) @ gap @ join_nl rl"
    by (simp add: gap_def)
  have gapw: "list_all isSpace gap"
    using bl(2) by (simp add: gap_def sep1_def sep2_def join_nl_blank blank_all_space isSpace_def)
  have rest: "drop i t = join_nl (popBlank ml) @ gap @ join_nl rl"
    using j unfolding part by (simp add: join_split)
  define B where "B = trim (take i t)"
  define M where "M = trim (join_nl (popBlank ml))"
  define A where "A = trim (join_nl rl)"
  obtain a0 b0 where d0: "take i t = a0 @ B @ b0"
    "list_all isSpace a0" "list_all isSpace b0" unfolding B_def using trim_decomp by blast
  obtain a1 b1 where d1: "join_nl (popBlank ml) = a1 @ M @ b1"
    "list_all isSpace a1" "list_all isSpace b1" unfolding M_def using trim_decomp by blast
  obtain a2 b2 where d2: "join_nl rl = a2 @ A @ b2"
    "list_all isSpace a2" "list_all isSpace b2" unfolding A_def using trim_decomp by blast
  have "t = take i t @ drop i t" by simp
  also have "\<dots> = (a0 @ B @ b0) @ (a1 @ M @ b1) @ gap @ (a2 @ A @ b2)"
    unfolding rest d0(1) d1(1) d2(1) ..
  finally have t: "t = a0 @ B @ ((b0 @ a1) @ M @ ((b1 @ gap @ a2) @ A @ b2))"
    by simp
  have "piecesOf [] b2" using d2(3) by simp
  then have "piecesOf [A] ((b1 @ gap @ a2) @ A @ b2)"
    by (rule piecesOf_Cons [rotated]) (simp add: d1(3) gapw d2(2))
  then have "piecesOf [M, A] ((b0 @ a1) @ M @ ((b1 @ gap @ a2) @ A @ b2))"
    by (rule piecesOf_Cons [rotated]) (simp add: d0(3) d1(2))
  then have "piecesOf [B, M, A] (a0 @ B @ ((b0 @ a1) @ M @ ((b1 @ gap @ a2) @ A @ b2)))"
    by (rule piecesOf_Cons [rotated]) (rule d0(2))
  then have "piecesOf [B, M, A] t" unfolding t [symmetric] .
  then show ?thesis by (simp add: raw slice_def B_def M_def A_def)
qed

lemma parseSegments_unfenced_pieces:
  assumes "matchAll fencedMatch 0 t = []"
  shows "piecesOf (map seg_text (parseSegments t)) t"
proof (cases "extractRawMermaid t")
  case None
  have "piecesOf [t] ([] @ t @ [])" by (rule piecesOf_Cons) simp_all
  with assms None show ?thesis by (simp add: parseSegments_def fencedLoop_def)
next
  case (Some raw)
  let ?b = "rawBefore raw" and ?m = "rawMermaid raw" and ?a = "rawAfter raw"
  have segs: "map seg_text (parseSegments t)
        = (if ?b \<noteq> [] then [?b] else []) @ [?m] @ (if ?a \<noteq> [] then [?a] else [])"
    using assms Some by (simp add: parseSegments_def fencedLoop_def)
  from extractRawMermaid_pieces [OF Some] obtain w0 r0 where
    t: "t = w0 @ ?b @ r0" and w0: "list_all isSpace w0" and p0: "piecesOf [?m, ?a] r0"
    by (rule piecesOf_ConsE)
  from p0 obtain w1 r1 where
    r0: "r0 = w1 @ ?m @ r1" and w1: "list_all isSpace w1" and r1: "piecesOf [?a] r1"
    by (rule piecesOf_ConsE)
  have tail: "piecesOf (if ?a \<noteq> [] then [?a] else []) r1"
    using r1 piecesOf_drop_empty [of "[]" r1] by (cases "?a = []") simp_all
  have mid: "piecesOf ([?m] @ (if ?a \<noteq> [] then [?a] else [])) r0"
    unfolding r0 using piecesOf_Cons [OF w1 tail, of ?m] by simp
  have "piecesOf ((if ?b \<noteq> [] then [?b] else []) @ [?m] @ (if ?a \<noteq> [] then [?a] else [])) t"
  proof (cases "?b = []")
    case True
    with t have "t = w0 @ r0" by simp
    with piecesOf_prepend [OF w0 mid] True show ?thesis by simp
  next
    case False
    with piecesOf_Cons [OF w0 mid, of ?b] t show ?thesis by simp
  qed
  with segs show ?thesis by simp
qed

lemma parseSegments_nonempty: "parseSegments t \<noteq> []"
proof (cases "matchAll fencedMatch 0 t = []")
  case True
  then show ?thesis
    by (cases "extractRawMermaid t") (simp_all add: parseSegments_def fencedLoop_def)
next
  case False
  obtain segments lastEnd where fl: "fencedLoop t = (segments, lastEnd)"
    by (cases "fencedLoop t")
  have "fst (fencedLoop t) \<noteq> []"
    using False by (simp add: fencedLoop_def foldl_fencedStep_empty)
  with fl show ?thesis by (simp add: parseSegments_def)
qed

text \<open>
  C2 (as amended). The list of segments is never empty, and the empty text gives one empty
  prose segment. When the text has no fenced block, the text consists of the texts of the
  segments: it is these texts, in list order, with nothing but white space before the first,
  between two consecutive ones and after the last, so each character that is not such
  boundary white space belongs to exactly one segment. When the text has fenced blocks, the
  texts of the segments, concatenated in order, are the text with each fenced block replaced
  by its trimmed body: the fence markers are in no segment.
\<close>

theorem parseSegments_coverage:
  "parseSegments t \<noteq> []
   \<and> parseSegments [] = [\<lparr>seg_type = MD, seg_text = []\<rparr>]
   \<and> (matchAll fencedMatch 0 t = [] \<longrightarrow> piecesOf (map seg_text (parseSegments t)) t)
   \<and> (matchAll fencedMatch 0 t \<noteq> [] \<longrightarrow>
        concat (map seg_text (parseSegments t)) = replaceFenced trim t)"
proof -
  have e: "parseSegments [] = [\<lparr>seg_type = MD, seg_text = []\<rparr>]" by code_simp
  have f: "concat (map seg_text (parseSegments t)) = replaceFenced trim t"
    if "matchAll fencedMatch 0 t \<noteq> []"
    using parseSegments_fenced(2) [OF that] fencedSegs_concat [of "[]" t] by simp
  from parseSegments_nonempty e parseSegments_unfenced_pieces f show ?thesis by blast
qed

theorem parseSegments_coverage_witness:
  "matchAll fencedMatch 0 rawExample = []
   \<and> parseSegments rawExample =
       [\<lparr>seg_type = MD, seg_text = ''Notes''\<rparr>,
        \<lparr>seg_type = MERMAID, seg_text = ''flowchart TD'' @ [nl] @ ''  A --> B''\<rparr>,
        \<lparr>seg_type = MD, seg_text = ''More text''\<rparr>]
   \<and> piecesOf [''Notes'', ''flowchart TD'' @ [nl] @ ''  A --> B'', ''More text''] rawExample
   \<and> matchAll fencedMatch 0 fencedExample \<noteq> []
   \<and> concat (map seg_text (parseSegments fencedExample))
       = ''Here is the flow:'' @ [nl] @ ''flowchart TD'' @ [nl] @ ''A[Start] --> B[End (done)]''
           @ [nl] @ ''Done.''"
proof -
  have h1: "matchAll fencedMatch 0 rawExample = []" by code_simp
  have p1: "parseSegments rawExample =
       [\<lparr>seg_type = MD, seg_text = ''Notes''\<rparr>,
        \<lparr>seg_type = MERMAID, seg_text = ''flowchart TD'' @ [nl] @ ''  A --> B''\<rparr>,
        \<lparr>seg_type = MD, seg_text = ''More text''\<rparr>]" by code_simp
  have h2: "matchAll fencedMatch 0 fencedExample \<noteq> []" by code_simp
  have r2: "replaceFenced trim fencedExample
       = ''Here is the flow:'' @ [nl] @ ''flowchart TD'' @ [nl] @ ''A[Start] --> B[End (done)]''
           @ [nl] @ ''Done.''" by code_simp
  from parseSegments_coverage [of rawExample] h1
  have "piecesOf (map seg_text (parseSegments rawExample)) rawExample" by blast
  then have c1: "piecesOf [''Notes'', ''flowchart TD'' @ [nl] @ ''  A --> B'', ''More text'']
       rawExample" unfolding p1 by simp
  from parseSegments_coverage [of fencedExample] h2
  have "concat (map seg_text (parseSegments fencedExample)) = replaceFenced trim fencedExample"
    by blast
  then have c2: "concat (map seg_text (parseSegments fencedExample))
       = ''Here is the flow:'' @ [nl] @ ''flowchart TD'' @ [nl] @ ''A[Start] --> B[End (done)]''
           @ [nl] @ ''Done.''" unfolding r2 .
  show ?thesis by (intro conjI) (rule h1 p1 c1 h2 c2)+
qed

text \<open>
  C2 as stated fails on a fenced block: the opening and closing markers are not white space
  and are in no segment.
\<close>

theorem fence_markers_in_no_segment:
  "parseSegments fencedOnly = [\<lparr>seg_type = MERMAID, seg_text = ''A''\<rparr>]
   \<and> filter (\<lambda>c. \<not> isSpace c) (concat (map seg_text (parseSegments fencedOnly))) = ''A''
   \<and> filter (\<lambda>c. \<not> isSpace c) fencedOnly = fence @ ''mermaidA'' @ fence
   \<and> filter (\<lambda>c. \<not> isSpace c) (concat (map seg_text (parseSegments fencedOnly)))
       \<noteq> filter (\<lambda>c. \<not> isSpace c) fencedOnly"
  by code_simp

text \<open>
  C3. When the text has at least one fenced block, the segments are those of the fenced
  pass alone (the loop over the fenced blocks and the trailing prose); the diagram segments
  are exactly the trimmed bodies of the fenced blocks, in order; and the prose segments,
  concatenated, are exactly the text outside the fenced blocks. So a keyword line outside
  every fenced block is in a prose segment.
\<close>

theorem fenced_precedence:
  assumes "matchAll fencedMatch 0 t \<noteq> []"
  shows "parseSegments t = finishFenced t (fencedLoop t)
       \<and> map seg_text (filter (\<lambda>s. seg_type s = MERMAID) (parseSegments t))
           = map (\<lambda>(i, n, body). trim body) (matchAll fencedMatch 0 t)
       \<and> concat (map seg_text (filter (\<lambda>s. seg_type s = MD) (parseSegments t)))
           = replaceFenced (\<lambda>body. []) t"
  using parseSegments_fenced [OF assms] fencedSegs_diagrams [of "[]" t 0]
    fencedSegs_prose [of "[]" t]
  by simp

theorem fenced_precedence_witness:
  "matchAll fencedMatch 0 keywordBeforeFence \<noteq> []
   \<and> parseSegments keywordBeforeFence =
       [\<lparr>seg_type = MD, seg_text = ''graph TD'' @ [nl]\<rparr>,
        \<lparr>seg_type = MERMAID, seg_text = ''A-->B''\<rparr>]
   \<and> concat (map seg_text (filter (\<lambda>s. seg_type s = MD) (parseSegments keywordBeforeFence)))
       = ''graph TD'' @ [nl]"
proof -
  have h: "matchAll fencedMatch 0 keywordBeforeFence \<noteq> []" by code_simp
  have r: "replaceFenced (\<lambda>body. []) keywordBeforeFence = ''graph TD'' @ [nl]" by code_simp
  have p: "parseSegments keywordBeforeFence =
       [\<lparr>seg_type = MD, seg_text = ''graph TD'' @ [nl]\<rparr>,
        \<lparr>seg_type = MERMAID, seg_text = ''A-->B''\<rparr>]" by code_simp
  from fenced_precedence [OF h]
  have "concat (map seg_text (filter (\<lambda>s. seg_type s = MD) (parseSegments keywordBeforeFence)))
       = replaceFenced (\<lambda>body. []) keywordBeforeFence" by (elim conjE)
  then have c: "concat (map seg_text (filter (\<lambda>s. seg_type s = MD) (parseSegments keywordBeforeFence)))
       = ''graph TD'' @ [nl]" unfolding r .
  show ?thesis by (intro conjI) (rule h p c)+
qed

text \<open>Without a fenced block the keyword line starts a diagram segment.\<close>

lemma raw_keyword_without_fence:
  "parseSegments (''graph TD'' @ [nl] @ ''hello'') =
     [\<lparr>seg_type = MERMAID, seg_text = ''graph TD''\<rparr>, \<lparr>seg_type = MD, seg_text = ''hello''\<rparr>]"
  by code_simp

section \<open>Properties of useChat\<close>

lemma chatStep_keeps_greeting:
  assumes "messages st = Some greeting # ms"
  shows "\<exists>ms'. messages (chatStep st op) = Some greeting # ms'"
proof (cases op)
  case (SendStart q)
  with assms show ?thesis by (simp add: sendMessageStart_def)
next
  case (SendSettle res)
  with assms show ?thesis
    by (cases res) (auto simp: sendMessageSettle_def split: prod.splits)
next
  case ClearChat
  with assms show ?thesis by (simp add: clearChat_def)
qed

lemma chatRun_greeting: "\<exists>ms. messages (chatRun ops) = Some greeting # ms"
proof (induction ops rule: rev_induct)
  case Nil
  show ?case by (simp add: chatRun_def initialChat_def)
next
  case (snoc x xs)
  then obtain ms where "messages (chatRun xs) = Some greeting # ms" by blast
  from chatStep_keeps_greeting [OF this, of x]
  show ?case by (simp add: chatRun_def)
qed

text \<open>
  C9. In every state reached from the initial one by starting sends, settling sends and
  clearing the chat, in any order, the message list is not empty and its first element is
  the greeting; a send appends the user message and then one assistant message (the answer,
  or the error message); clearing leaves exactly the greeting.
\<close>

theorem chat_messages_greeting_first:
  "messages (chatRun ops) \<noteq> []
   \<and> hd (messages (chatRun ops)) = Some greeting
   \<and> messages (sendMessage q (Inr (answer, srcs)) (chatRun ops)) =
       messages (chatRun ops)
         @ [Some \<lparr>role = ''user'', content = q, sources = []\<rparr>,
            Some \<lparr>role = ''assistant'', content = answer, sources = srcs\<rparr>]
   \<and> messages (sendMessage q (Inl err) (chatRun ops)) =
       messages (chatRun ops)
         @ [Some \<lparr>role = ''user'', content = q, sources = []\<rparr>,
            Some \<lparr>role = ''assistant'', content = ''Error: '' @ err, sources = []\<rparr>]
   \<and> messages (clearChat (chatRun ops)) = [Some greeting]"
proof -
  obtain ms where ms: "messages (chatRun ops) = Some greeting # ms"
    using chatRun_greeting by blast
  have "messages (clearChat (chatRun ops)) = [Some greeting]"
    using ms by (simp add: clearChat_def)
  moreover have "messages (sendMessage q (Inr (answer, srcs)) (chatRun ops)) =
       messages (chatRun ops)
         @ [Some \<lparr>role = ''user'', content = q, sources = []\<rparr>,
            Some \<lparr>role = ''assistant'', content = answer, sources = srcs\<rparr>]"
    by (simp add: sendMessage_def sendMessageStart_def sendMessageSettle_def)
  moreover have "messages (sendMessage q (Inl err) (chatRun ops)) =
       messages (chatRun ops)
         @ [Some \<lparr>role = ''user'', content = q, sources = []\<rparr>,
            Some \<lparr>role = ''assistant'', content = ''Error: '' @ err, sources = []\<rparr>]"
    by (simp add: sendMessage_def sendMessageStart_def sendMessageSettle_def)
  ultimately show ?thesis using ms by simp
qed

section \<open>Properties of useFilters\<close>

text \<open>
  C10. The object returned by \<open>getActiveFilters\<close> has the key of a filter exactly when the
  selection of that filter is truthy, with the selection as its value, the year as the
  \<open>parseInt\<close> of its selection; it has no other key; after \<open>clearFilters\<close>, and initially,
  it has no key at all. Null is not truthy, and a string is truthy exactly when it is not
  empty.
\<close>

theorem getActiveFilters_keys:
  "getActiveFilters parseInt st ''owner'' =
     (if truthy (selectedOwner st) then Some (selectedOwner st) else None)
   \<and> getActiveFilters parseInt st ''company'' =
     (if truthy (selectedCompany st) then Some (selectedCompany st) else None)
   \<and> getActiveFilters parseInt st ''category'' =
     (if truthy (selectedCategory st) then Some (selectedCategory st) else None)
   \<and> getActiveFilters parseInt st ''year'' =
     (if truthy (selectedYear st) then Some (parseInt (selectedYear st)) else None)
   \<and> dom (getActiveFilters parseInt st) \<subseteq> {''owner'', ''company'', ''category'', ''year''}
   \<and> getActiveFilters parseInt (clearFilters st) = Map.empty
   \<and> getActiveFilters parseInt initialFilters = Map.empty
   \<and> \<not> truthy JNull \<and> truthy (JStr s) = (s \<noteq> [])"
  by (auto simp: getActiveFilters_def clearFilters_def initialFilters_def Let_def
           split: if_splits)

lemma loadFilters_rejected:
  assumes "getOwners = Inl e \<or> getCompanies = Inl e \<or> getCategories = Inl e"
  shows "\<exists>e'. loadFilters getOwners getCompanies getCategories st = (Some e', st)"
  using assms by (auto simp: loadFilters_def promiseAll3_def split: sum.splits)

lemma loadFilters_fulfilled:
  "loadFilters (Inr ow) (Inr co) (Inr ca) st =
     (None, st\<lparr>owners := ow, companies := co, categories := ca\<rparr>)"
  by (simp add: loadFilters_def promiseAll3_def)

lemma statsOnMounted_rejected: "statsOnMounted (Inl e) stats = (None, stats)"
  by (simp add: statsOnMounted_def)

text \<open>
  C7. When the fetch of the owners is rejected, \<open>loadFilters\<close> leaves the lists as they
  were and is itself rejected with that error: no handler of the repository catches it.
  The hook that fetches the stats catches the error and leaves the stats as they were.
\<close>

theorem loadFilters_rejection_escapes:
  "loadFilters (Inl ''Failed to fetch'') (Inr [''Acme'']) (Inr [''Tax'']) initialFilters
     = (Some ''Failed to fetch'', initialFilters)
   \<and> statsOnMounted (Inl ''Failed to fetch'') (None :: nat option) = (None, None)"
  by (simp add: loadFilters_def promiseAll3_def statsOnMounted_def)

end
